theory Spec2Isabelle
  imports Main "HOL-Library.Char_ord" "HOL-Library.List_Lexorder"
begin

section \<open>Regular expressions used by the validators\<close>

text \<open>
  Two places of the repository validate a string against a regular expression:
  the NixOS module checks a secret's \<open>mode\<close> with
  \<^verbatim>\<open>builtins.match "^[0-7]{3,4}$"\<close>, and the \<open>env\<close> command checks variable
  names with \<^verbatim>\<open>regexp.MustCompile(`^[A-Z][A-Z0-9_]*$`)\<close>. Both patterns are
  anchored at both ends, so a string is accepted exactly when the whole string
  is in the language of the expression between the anchors. The expressions are
  kept as syntax trees and matched by derivatives, so that the validators below
  run the pattern of the source rather than a hand-written predicate.
  Strings are byte strings; every class of the two patterns is an ASCII range.
\<close>

datatype rexp =
    Zero
  | One
  | Range char char
  | Alt rexp rexp
  | Seq rexp rexp
  | Star rexp

definition in_range :: "char \<Rightarrow> char \<Rightarrow> char \<Rightarrow> bool" where
  "in_range lo hi c \<longleftrightarrow> lo \<le> c \<and> c \<le> hi"

primrec nullable :: "rexp \<Rightarrow> bool" where
  "nullable Zero = False"
| "nullable One = True"
| "nullable (Range lo hi) = False"
| "nullable (Alt r s) = (nullable r \<or> nullable s)"
| "nullable (Seq r s) = (nullable r \<and> nullable s)"
| "nullable (Star r) = True"

primrec deriv :: "char \<Rightarrow> rexp \<Rightarrow> rexp" where
  "deriv c Zero = Zero"
| "deriv c One = Zero"
| "deriv c (Range lo hi) = (if in_range lo hi c then One else Zero)"
| "deriv c (Alt r s) = Alt (deriv c r) (deriv c s)"
| "deriv c (Seq r s) =
     (if nullable r then Alt (Seq (deriv c r) s) (deriv c s) else Seq (deriv c r) s)"
| "deriv c (Star r) = Seq (deriv c r) (Star r)"

primrec matches :: "rexp \<Rightarrow> string \<Rightarrow> bool" where
  "matches r [] = nullable r"
| "matches r (c # cs) = matches (deriv c r) cs"

text \<open>\<open>r{n}\<close>, \<open>r{0,n}\<close> and \<open>r{m,n}\<close> as abbreviations of the core syntax.\<close>

primrec exactly :: "nat \<Rightarrow> rexp \<Rightarrow> rexp" where
  "exactly 0 r = One"
| "exactly (Suc n) r = Seq r (exactly n r)"

primrec at_most :: "nat \<Rightarrow> rexp \<Rightarrow> rexp" where
  "at_most 0 r = One"
| "at_most (Suc n) r = Alt One (Seq r (at_most n r))"

definition between :: "nat \<Rightarrow> nat \<Rightarrow> rexp \<Rightarrow> rexp" where
  "between m n r = Seq (exactly m r) (at_most (n - m) r)"

text \<open>The language of an expression, for the proofs only.\<close>

primrec lang :: "rexp \<Rightarrow> string set" where
  "lang Zero = {}"
| "lang One = {[]}"
| "lang (Range lo hi) = {[c] | c. in_range lo hi c}"
| "lang (Alt r s) = lang r \<union> lang s"
| "lang (Seq r s) = {u @ v | u v. u \<in> lang r \<and> v \<in> lang s}"
| "lang (Star r) = {concat ws | ws. set ws \<subseteq> lang r}"

lemma nullable_lang: "nullable r \<longleftrightarrow> [] \<in> lang r"
proof (induction r)
  case (Star r)
  show ?case by (auto intro: exI [of _ "[]"])
qed auto

lemma star_step:
  assumes ih: "\<And>w. w \<in> lang (deriv c r) \<longleftrightarrow> c # w \<in> lang r"
  shows "s \<in> lang (deriv c (Star r)) \<longleftrightarrow> c # s \<in> lang (Star r)"
proof
  assume "s \<in> lang (deriv c (Star r))"
  then obtain u ws where s: "s = u @ concat ws" and u: "u \<in> lang (deriv c r)"
    and ws: "set ws \<subseteq> lang r" by auto
  from u ih have "c # u \<in> lang r" by simp
  with ws have "set ((c # u) # ws) \<subseteq> lang r" by simp
  moreover have "c # s = concat ((c # u) # ws)" using s by simp
  ultimately show "c # s \<in> lang (Star r)" unfolding lang.simps by blast
next
  assume "c # s \<in> lang (Star r)"
  then obtain ws where cs: "c # s = concat ws" and ws: "set ws \<subseteq> lang r" by auto
  define vs where "vs = dropWhile (\<lambda>w. w = []) ws"
  have sub: "set vs \<subseteq> lang r"
    using ws set_dropWhileD unfolding vs_def by fastforce
  have cat: "concat ws = concat vs"
    unfolding vs_def by (induction ws) auto
  from cs cat have "vs \<noteq> []" by auto
  then obtain w vs' where vs: "vs = w # vs'" by (cases vs) auto
  have "w \<noteq> []"
    using hd_dropWhile [of "\<lambda>w. w = []" ws] vs unfolding vs_def by auto
  with cs cat vs obtain w' where w: "w = c # w'" and s: "s = w' @ concat vs'"
    by (cases w) auto
  from sub vs w have "c # w' \<in> lang r" by simp
  with ih have "w' \<in> lang (deriv c r)" by simp
  moreover from sub vs have "set vs' \<subseteq> lang r" by simp
  ultimately show "s \<in> lang (deriv c (Star r))" using s by auto
qed

lemma deriv_lang: "s \<in> lang (deriv c r) \<longleftrightarrow> c # s \<in> lang r"
proof (induction r arbitrary: s)
  case (Seq r1 r2)
  show ?case
  proof (cases "nullable r1")
    case True
    then have e: "[] \<in> lang r1" by (simp add: nullable_lang)
    show ?thesis
    proof
      assume "s \<in> lang (deriv c (Seq r1 r2))"
      with True Seq consider
          u v where "s = u @ v" "c # u \<in> lang r1" "v \<in> lang r2"
        | "c # s \<in> lang r2" by auto
      then show "c # s \<in> lang (Seq r1 r2)"
      proof cases
        case 1
        then have "c # s = (c # u) @ v" by simp
        with 1 show ?thesis unfolding lang.simps by blast
      next
        case 2
        then have "c # s = [] @ (c # s)" by simp
        with 2 e show ?thesis unfolding lang.simps by blast
      qed
    next
      assume "c # s \<in> lang (Seq r1 r2)"
      then obtain u v where uv: "c # s = u @ v" "u \<in> lang r1" "v \<in> lang r2" by auto
      show "s \<in> lang (deriv c (Seq r1 r2))"
      proof (cases u)
        case Nil
        with uv Seq True show ?thesis by auto
      next
        case (Cons a u')
        with uv have "a = c" "s = u' @ v" by auto
        with uv Cons Seq True show ?thesis by auto
      qed
    qed
  next
    case False
    then have ne: "[] \<notin> lang r1" by (simp add: nullable_lang)
    show ?thesis
    proof
      assume "s \<in> lang (deriv c (Seq r1 r2))"
      with False Seq obtain u v where 1: "s = u @ v" "c # u \<in> lang r1" "v \<in> lang r2"
        by auto
      then have "c # s = (c # u) @ v" by simp
      with 1 show "c # s \<in> lang (Seq r1 r2)" unfolding lang.simps by blast
    next
      assume "c # s \<in> lang (Seq r1 r2)"
      then obtain u v where uv: "c # s = u @ v" "u \<in> lang r1" "v \<in> lang r2" by auto
      with ne obtain u' where "u = c # u'" by (cases u) auto
      with uv Seq False show "s \<in> lang (deriv c (Seq r1 r2))" by auto
    qed
  qed
next
  case (Star r)
  then show ?case by (rule star_step)
qed auto

lemma matches_lang: "matches r s \<longleftrightarrow> s \<in> lang r"
  by (induction s arbitrary: r) (simp_all add: nullable_lang deriv_lang)

lemma lang_star_class:
  assumes r: "lang r = {[c] | c. P c}"
  shows "lang (Star r) = {s. \<forall>c\<in>set s. P c}"
proof (rule set_eqI, rule iffI)
  fix s
  assume "s \<in> lang (Star r)"
  then obtain ws where s: "s = concat ws" and ws: "set ws \<subseteq> lang r" by auto
  have "\<forall>c\<in>set (concat ws). P c"
    using ws unfolding r by (induction ws) auto
  with s show "s \<in> {s. \<forall>c\<in>set s. P c}" by simp
next
  fix s
  assume "s \<in> {s. \<forall>c\<in>set s. P c}"
  then have "set (map (\<lambda>c. [c]) s) \<subseteq> lang r" unfolding r by auto
  moreover have "s = concat (map (\<lambda>c. [c]) s)" by (induction s) auto
  ultimately show "s \<in> lang (Star r)" unfolding lang.simps by blast
qed

lemma lang_exactly_class:
  assumes r: "lang r = {[c] | c. P c}"
  shows "lang (exactly n r) = {s. length s = n \<and> (\<forall>c\<in>set s. P c)}"
proof (induction n)
  case 0
  show ?case by auto
next
  case (Suc n)
  show ?case
  proof (rule set_eqI, rule iffI)
    fix s
    assume "s \<in> lang (exactly (Suc n) r)"
    then show "s \<in> {s. length s = Suc n \<and> (\<forall>c\<in>set s. P c)}"
      unfolding exactly.simps lang.simps Suc r by auto
  next
    fix s
    assume "s \<in> {s. length s = Suc n \<and> (\<forall>c\<in>set s. P c)}"
    then obtain c t where "s = [c] @ t" "P c" "length t = n" "\<forall>c\<in>set t. P c"
      by (cases s) auto
    then show "s \<in> lang (exactly (Suc n) r)"
      unfolding exactly.simps lang.simps Suc r by blast
  qed
qed

lemma lang_at_most_class:
  assumes r: "lang r = {[c] | c. P c}"
  shows "lang (at_most n r) = {s. length s \<le> n \<and> (\<forall>c\<in>set s. P c)}"
proof (induction n)
  case 0
  show ?case by auto
next
  case (Suc n)
  show ?case
  proof (rule set_eqI, rule iffI)
    fix s
    assume "s \<in> lang (at_most (Suc n) r)"
    then show "s \<in> {s. length s \<le> Suc n \<and> (\<forall>c\<in>set s. P c)}"
      unfolding at_most.simps lang.simps Suc r by auto
  next
    fix s
    assume s: "s \<in> {s. length s \<le> Suc n \<and> (\<forall>c\<in>set s. P c)}"
    show "s \<in> lang (at_most (Suc n) r)"
    proof (cases s)
      case Nil
      then show ?thesis by simp
    next
      case (Cons c t)
      with s have "s = [c] @ t" "P c" "length t \<le> n" "\<forall>c\<in>set t. P c" by auto
      then have "s \<in> {u @ v | u v. u \<in> {[c] | c. P c}
          \<and> v \<in> {s. length s \<le> n \<and> (\<forall>c\<in>set s. P c)}}" by blast
      then show ?thesis unfolding at_most.simps lang.simps Suc r by blast
    qed
  qed
qed

lemma lang_between_class:
  assumes r: "lang r = {[c] | c. P c}" and mn: "m \<le> n"
  shows "lang (between m n r) = {s. m \<le> length s \<and> length s \<le> n \<and> (\<forall>c\<in>set s. P c)}"
proof (rule set_eqI, rule iffI)
  fix s
  assume "s \<in> lang (between m n r)"
  then show "s \<in> {s. m \<le> length s \<and> length s \<le> n \<and> (\<forall>c\<in>set s. P c)}"
    using mn unfolding between_def lang.simps lang_exactly_class [OF r] lang_at_most_class [OF r]
    by auto
next
  fix s
  assume s: "s \<in> {s. m \<le> length s \<and> length s \<le> n \<and> (\<forall>c\<in>set s. P c)}"
  have "s = take m s @ drop m s" by simp
  moreover have "take m s \<in> {s. length s = m \<and> (\<forall>c\<in>set s. P c)}"
    using s by (auto dest: in_set_takeD)
  moreover have "drop m s \<in> {s. length s \<le> n - m \<and> (\<forall>c\<in>set s. P c)}"
    using s by (auto dest: in_set_dropD)
  ultimately show "s \<in> lang (between m n r)"
    unfolding between_def lang.simps lang_exactly_class [OF r] lang_at_most_class [OF r]
    by blast
qed

section \<open>The \<open>env\<close> command\<close>

subsection \<open>Data\<close>

text \<open>
  The structs of the command. \<open>envVariable\<close> and \<open>envConfig\<close> are decoded from
  JSON; an absent string field is the empty string and an absent boolean is
  false, which is how the Go code tests them.
\<close>

record envVariable =
  Name :: string
  Reference :: string
  Value :: string
  Optional :: bool
  PreserveWhitespace :: bool
  Description :: string

record envConfig =
  Vars :: "envVariable list"
  Format :: string

text \<open>
  Errors are values. The constructors of package \<open>internal/errors\<close> are kept
  as constructors with the arguments the callers pass; \<open>External\<close> is an error
  that comes from outside the command (the secret resolver).
\<close>

datatype opnixError =
    External string
  | ConfigError string string "opnixError option"
  | ConfigValidationError string string string "string list"
  | WrapWithSuggestions opnixError string string "string list"

datatype envSkippedVariable = EnvSkippedVariable (Skipped_Name: string) (Skipped_Err: opnixError)

record envResult =
  Values :: "string \<rightharpoonup> string"
  Skipped :: "envSkippedVariable list"

text \<open>
  The resolver is an interface with one method. A call may have effects (it
  talks to the vault), so it takes and returns a state of the outside world.
\<close>

type_synonym 's secretResolver = "string \<Rightarrow> 's \<Rightarrow> (opnixError + string) \<times> 's"

text \<open>\<open>%d\<close> of a non-negative index.\<close>

fun showNat :: "nat \<Rightarrow> string" where
  "showNat n =
     (if n < 10 then [''0123456789'' ! n]
      else showNat (n div 10) @ [''0123456789'' ! (n mod 10)])"

declare showNat.simps [simp del]

subsection \<open>Validation\<close>

text \<open>\<^verbatim>\<open>^[A-Z][A-Z0-9_]*$\<close>\<close>

definition envNamePattern :: rexp where
  "envNamePattern =
     Seq (Range CHR ''A'' CHR ''Z'')
       (Star (Alt (Range CHR ''A'' CHR ''Z'')
          (Alt (Range CHR ''0'' CHR ''9'') (Range CHR ''_'' CHR ''_''))))"

text \<open>
  \<open>MatchString\<close> searches for a match anywhere in the string; with \<open>^\<close> in front
  and \<open>$\<close> behind (Go's \<open>$\<close> is the end of the text) that is a match of the
  whole string.
\<close>

definition MatchString :: "rexp \<Rightarrow> string \<Rightarrow> bool" where
  "MatchString re s = matches re s"

text \<open>The body of the loop of \<open>validateEnvConfig\<close>, for the variable at index \<open>i\<close>.\<close>

definition validateVariable :: "envVariable \<Rightarrow> nat \<Rightarrow> opnixError option" where
  \<open>validateVariable variable i =
     (let fieldPrefix = ''env.vars['' @ showNat i @ '']'' in
      if Name variable = [] then
        Some (ConfigValidationError (fieldPrefix @ ''.name'') ''<empty>''
          ''Environment variable name cannot be empty''
          [''Provide a unique uppercase variable name'', ''Example: API_TOKEN''])
      else if \<not> MatchString envNamePattern (Name variable) then
        Some (ConfigValidationError (fieldPrefix @ ''.name'') (Name variable)
          ''Environment variable names must use uppercase letters, numbers, and underscores''
          [''Start with an uppercase letter'',
           ''Use uppercase letters, digits, and underscores only'',
           ''Example: DATABASE_PASSWORD''])
      else
        (let hasReference = (Reference variable \<noteq> []);
             hasValue = (Value variable \<noteq> []) in
         if hasReference \<and> hasValue then
           Some (ConfigValidationError fieldPrefix (Name variable)
             (''Specify either '' @ [CHR 0x27] @ ''reference'' @ [CHR 0x27] @ '' or ''
                @ [CHR 0x27] @ ''value'' @ [CHR 0x27] @ '', not both'')
             [''Remove the '' @ [CHR 0x27] @ ''value'' @ [CHR 0x27]
                @ '' field to use a 1Password reference'',
              ''Or remove the '' @ [CHR 0x27] @ ''reference'' @ [CHR 0x27]
                @ '' field to use a static value''])
         else if \<not> hasReference \<and> \<not> hasValue then
           Some (ConfigValidationError fieldPrefix (Name variable)
             ''Environment variable must define a 1Password reference or static value''
             [''Add a '' @ [CHR 0x27] @ ''reference'' @ [CHR 0x27]
                @ '': "op://Vault/Item/field"'',
              ''Or add a '' @ [CHR 0x27] @ ''value'' @ [CHR 0x27]
                @ '' for static configuration''])
         else None))\<close>

text \<open>The loop: the first variable that fails a check ends it with that error.\<close>

fun validateVars :: "envVariable list \<Rightarrow> nat \<Rightarrow> opnixError option" where
  "validateVars [] i = None"
| "validateVars (variable # rest) i =
     (case validateVariable variable i of
        Some err \<Rightarrow> Some err
      | None \<Rightarrow> validateVars rest (Suc i))"

definition validateEnvConfig :: "envConfig \<Rightarrow> opnixError option" where
  \<open>validateEnvConfig cfg =
     (if length (Vars cfg) = 0 then
        Some (ConfigValidationError ''env.vars'' ''<empty>''
          ''Environment configuration must define at least one variable''
          [''Add variables under the '' @ [CHR 0x27] @ ''vars'' @ [CHR 0x27] @ '' array'',
           ''Example: {"vars": [{"name": "API_TOKEN", "reference": "op://Vault/Item/token"}]}''])
      else validateVars (Vars cfg) 0)\<close>


text \<open>What the pattern accepts, character by character.\<close>

definition isNameStart :: "char \<Rightarrow> bool" where
  "isNameStart c \<longleftrightarrow> CHR ''A'' \<le> c \<and> c \<le> CHR ''Z''"

definition isNameChar :: "char \<Rightarrow> bool" where
  "isNameChar c \<longleftrightarrow>
     (CHR ''A'' \<le> c \<and> c \<le> CHR ''Z'') \<or> (CHR ''0'' \<le> c \<and> c \<le> CHR ''9'') \<or> c = CHR ''_''"

lemma lang_range_seq:
  "lang (Seq (Range lo hi) r) = {c # v | c v. in_range lo hi c \<and> v \<in> lang r}"
proof (rule set_eqI, rule iffI)
  fix s
  assume "s \<in> lang (Seq (Range lo hi) r)"
  then show "s \<in> {c # v | c v. in_range lo hi c \<and> v \<in> lang r}" by auto
next
  fix s
  assume "s \<in> {c # v | c v. in_range lo hi c \<and> v \<in> lang r}"
  then obtain c v where "s = [c] @ v" "in_range lo hi c" "v \<in> lang r" by auto
  then show "s \<in> lang (Seq (Range lo hi) r)" unfolding lang.simps by blast
qed

lemma envNamePattern_iff:
  "MatchString envNamePattern s \<longleftrightarrow>
     (\<exists>c cs. s = c # cs \<and> isNameStart c \<and> (\<forall>d\<in>set cs. isNameChar d))"
proof -
  have cls: "lang (Alt (Range CHR ''A'' CHR ''Z'')
        (Alt (Range CHR ''0'' CHR ''9'') (Range CHR ''_'' CHR ''_''))) = {[c] | c. isNameChar c}"
    by (auto simp: in_range_def isNameChar_def)
  show ?thesis
    unfolding MatchString_def matches_lang envNamePattern_def lang_range_seq
      lang_star_class [OF cls]
    by (auto simp: in_range_def isNameStart_def)
qed

lemma validateVariable_None_iff:
  "validateVariable v i = None \<longleftrightarrow>
     MatchString envNamePattern (Name v) \<and> ((Reference v \<noteq> []) \<noteq> (Value v \<noteq> []))"
proof -
  have "\<not> MatchString envNamePattern []"
    by (simp add: MatchString_def envNamePattern_def)
  then show ?thesis
    by (auto simp: validateVariable_def Let_def)
qed

lemma validateVariable_Some:
  "validateVariable v i = Some e \<Longrightarrow> \<exists>f x m sg. e = ConfigValidationError f x m sg"
  by (auto simp: validateVariable_def Let_def split: if_splits)

lemma validateVars_None_iff:
  "validateVars vs i = None \<longleftrightarrow> (\<forall>v\<in>set vs. \<forall>j. validateVariable v j = None)"
proof (induction vs arbitrary: i)
  case Nil
  show ?case by simp
next
  case (Cons v vs)
  have indep: "validateVariable v i = None \<longleftrightarrow> (\<forall>j. validateVariable v j = None)"
    by (simp add: validateVariable_None_iff)
  show ?case
    using Cons [of "Suc i"] indep by (auto split: option.splits)
qed

lemma validateVars_Some:
  "validateVars vs i = Some e \<Longrightarrow> \<exists>f x m sg. e = ConfigValidationError f x m sg"
  by (induction vs arbitrary: i) (auto split: option.splits dest: validateVariable_Some)

text \<open>
  Claim C9. \<open>validateEnvConfig\<close> returns nil exactly when the configuration has
  at least one variable and every variable has a name accepted by
  \<open>envNamePattern\<close> and exactly one of \<open>reference\<close> and \<open>value\<close> non-empty; whenever
  it does not return nil, the error is a \<open>ConfigValidationError\<close>. By
  \<open>envNamePattern_iff\<close> the accepted names are an upper-case letter followed by
  upper-case letters, digits and underscores.
\<close>

theorem validateEnvConfig_nil_iff:
  "(validateEnvConfig cfg = None \<longleftrightarrow>
      Vars cfg \<noteq> [] \<and>
      (\<forall>v\<in>set (Vars cfg).
         MatchString envNamePattern (Name v) \<and> ((Reference v \<noteq> []) \<noteq> (Value v \<noteq> []))))
   \<and> (validateEnvConfig cfg = None
        \<or> (\<exists>f x m sg. validateEnvConfig cfg = Some (ConfigValidationError f x m sg)))"
proof (cases "Vars cfg = []")
  case True
  then show ?thesis by (simp add: validateEnvConfig_def)
next
  case False
  then have eq: "validateEnvConfig cfg = validateVars (Vars cfg) 0"
    by (simp add: validateEnvConfig_def)
  have shape: "validateVars (Vars cfg) 0 = None
      \<or> (\<exists>f x m sg. validateVars (Vars cfg) 0 = Some (ConfigValidationError f x m sg))"
    using validateVars_Some [of "Vars cfg" 0] by (cases "validateVars (Vars cfg) 0") auto
  show ?thesis
    unfolding eq using False shape
    by (simp add: validateVars_None_iff validateVariable_None_iff)
qed

theorem validateEnvConfig_nil_iff_witness:
  "validateEnvConfig \<lparr>Vars = [\<lparr>Name = ''API_TOKEN'', Reference = ''op://Vault/Item/token'',
       Value = [], Optional = False, PreserveWhitespace = False, Description = []\<rparr>],
     Format = []\<rparr> = None
   \<and> validateEnvConfig \<lparr>Vars = [\<lparr>Name = ''api'', Reference = ''op://Vault/Item/token'',
       Value = [], Optional = False, PreserveWhitespace = False, Description = []\<rparr>],
     Format = []\<rparr> \<noteq> None"
  using validateEnvConfig_nil_iff [of "\<lparr>Vars = [\<lparr>Name = ''API_TOKEN'',
       Reference = ''op://Vault/Item/token'',
       Value = [], Optional = False, PreserveWhitespace = False, Description = []\<rparr>],
     Format = []\<rparr>"]
    validateEnvConfig_nil_iff [of "\<lparr>Vars = [\<lparr>Name = ''api'',
       Reference = ''op://Vault/Item/token'',
       Value = [], Optional = False, PreserveWhitespace = False, Description = []\<rparr>],
     Format = []\<rparr>"]
  by (simp add: MatchString_def envNamePattern_def in_range_def)


subsection \<open>Resolution\<close>

definition shouldTrim :: "envVariable \<Rightarrow> bool" where
  "shouldTrim v = (\<not> PreserveWhitespace v)"

text \<open>
  \<open>strings.TrimSpace\<close> belongs to Go's library, not to the repository; the
  functions that call it take it as the parameter \<open>TrimSpace\<close>.
\<close>

definition resolveVariable ::
  "(string \<Rightarrow> string) \<Rightarrow> 's secretResolver \<Rightarrow> envVariable \<Rightarrow> nat \<Rightarrow> 's
     \<Rightarrow> (opnixError + string) \<times> 's" where
  "resolveVariable TrimSpace ResolveSecret variable index s =
     (if Reference variable \<noteq> [] then
        (case ResolveSecret (Reference variable) s of
           (Inl err, s') \<Rightarrow>
             (Inl (WrapWithSuggestions err
                (''Resolving secret for env var '' @ Name variable)
                ''environment variable resolution''
                [''Check that the 1Password reference '' @ [CHR 0x27] @ Reference variable
                   @ [CHR 0x27] @ '' exists'',
                 ''Ensure the service account has access to the vault and item'']), s')
         | (Inr val, s') \<Rightarrow>
             (if shouldTrim variable then (Inr (TrimSpace val), s') else (Inr val, s')))
      else if Value variable \<noteq> [] then
        (if shouldTrim variable then (Inr (TrimSpace (Value variable)), s)
         else (Inr (Value variable), s))
      else
        (Inl (ConfigError (''Processing env variable at index '' @ showNat index)
           (''Variable must define either '' @ [CHR 0x27] @ ''reference'' @ [CHR 0x27]
              @ '' or '' @ [CHR 0x27] @ ''value'' @ [CHR 0x27])
           None), s))"

text \<open>
  The loop of \<open>Process\<close> over \<open>cfg.Vars\<close> from index \<open>i\<close> on, with the result built so
  far. \<open>return nil, err\<close> is \<open>Inl err\<close>: no result is returned with an error.
\<close>

fun processVars ::
  "(string \<Rightarrow> string) \<Rightarrow> 's secretResolver \<Rightarrow> envVariable list \<Rightarrow> nat \<Rightarrow> envResult \<Rightarrow> 's
     \<Rightarrow> (opnixError + envResult) \<times> 's" where
  "processVars TrimSpace ResolveSecret [] i result s = (Inr result, s)"
| "processVars TrimSpace ResolveSecret (variable # rest) i result s =
     (case resolveVariable TrimSpace ResolveSecret variable i s of
        (Inl err, s') \<Rightarrow>
          (if Optional variable then
             processVars TrimSpace ResolveSecret rest (Suc i)
               (result\<lparr>Skipped := Skipped result @ [EnvSkippedVariable (Name variable) err]\<rparr>) s'
           else (Inl err, s'))
      | (Inr val, s') \<Rightarrow>
          processVars TrimSpace ResolveSecret rest (Suc i)
            (result\<lparr>Values := (Values result)(Name variable \<mapsto> val)\<rparr>) s')"

definition Process ::
  "(string \<Rightarrow> string) \<Rightarrow> 's secretResolver \<Rightarrow> envConfig option \<Rightarrow> 's
     \<Rightarrow> (opnixError + envResult) \<times> 's" where
  "Process TrimSpace ResolveSecret cfg s =
     (case cfg of
        None \<Rightarrow>
          (Inl (ConfigError ''Processing environment configuration''
             ''Environment configuration cannot be nil'' None), s)
      | Some c \<Rightarrow>
          processVars TrimSpace ResolveSecret (Vars c) 0 \<lparr>Values = Map.empty, Skipped = []\<rparr> s)"

text \<open>
  A resolver for concrete runs: the state is the list of references asked for so
  far, and only one reference exists in the vault.
\<close>

definition loggingResolver :: "string list secretResolver" where
  "loggingResolver ref asked =
     (if ref = ''op://Homelab/API/token'' then Inr '' s3cret '' else Inl (External ''not found''),
      asked @ [ref])"

definition trimBlanks :: "string \<Rightarrow> string" where
  "trimBlanks s = rev (dropWhile (\<lambda>c. c = CHR '' '') (rev (dropWhile (\<lambda>c. c = CHR '' '') s)))"

lemma processVars_append:
  "processVars T R (pre @ post) i acc s =
     (case processVars T R pre i acc s of
        (Inl e, s') \<Rightarrow> (Inl e, s')
      | (Inr r, s') \<Rightarrow> processVars T R post (i + length pre) r s')"
  by (induction pre arbitrary: i acc s) (auto split: prod.splits sum.splits)

lemma processVars_Skipped_grows:
  "processVars T R vs i acc s = (Inr r, s') \<Longrightarrow> \<exists>ys. Skipped r = Skipped acc @ ys"
proof (induction vs arbitrary: i acc s)
  case Nil
  then show ?case by simp
next
  case (Cons v vs)
  then show ?case
    by (fastforce split: prod.splits sum.splits if_splits)
qed

lemma processVars_total:
  "(\<forall>v\<in>set vs. Optional v \<or> (\<forall>i s. \<exists>x s'. resolveVariable T R v i s = (Inr x, s')))
     \<Longrightarrow> \<exists>r s'. processVars T R vs i acc s = (Inr r, s')"
proof (induction vs arbitrary: i acc s)
  case Nil
  then show ?case by simp
next
  case (Cons v vs)
  obtain res s1 where step: "resolveVariable T R v i s = (res, s1)" by (cases "resolveVariable T R v i s")
  show ?case
  proof (cases res)
    case (Inl e)
    have "Optional v \<or> (\<exists>x s'. resolveVariable T R v i s = (Inr x, s'))"
      using Cons.prems by auto
    with step Inl have "Optional v" by auto
    with Inl step Cons show ?thesis by simp
  next
    case (Inr x)
    with step Cons show ?thesis by simp
  qed
qed

text \<open>
  Claim C8. Let the loop reach the variable \<open>v\<close>: the variables before it, \<open>pre\<close>,
  were processed into the result \<open>r1\<close> and the state \<open>s1\<close> without ending the run,
  and the resolution of \<open>v\<close> fails with \<open>e\<close>. If \<open>v\<close> is not optional, \<open>Process\<close>
  returns \<open>e\<close> and no result, in the state the failed resolution left: the
  variables after \<open>v\<close> are never looked at. If \<open>v\<close> is optional, \<open>Process\<close> goes on
  with the variables after \<open>v\<close>, with \<open>v\<close>'s name and error appended to \<open>Skipped\<close>,
  and the entry is in the \<open>Skipped\<close> list of any result returned. When every
  variable is optional or cannot fail, \<open>Process\<close> returns a result.
\<close>

theorem Process_failure_policy:
  "(Vars c = pre @ v # post
      \<and> processVars T R pre 0 \<lparr>Values = Map.empty, Skipped = []\<rparr> s = (Inr r1, s1)
      \<and> resolveVariable T R v (length pre) s1 = (Inl e, s2)
    \<longrightarrow> (if Optional v then
           Process T R (Some c) s =
             processVars T R post (Suc (length pre))
               (r1\<lparr>Skipped := Skipped r1 @ [EnvSkippedVariable (Name v) e]\<rparr>) s2
           \<and> (\<forall>r s'. Process T R (Some c) s = (Inr r, s')
                \<longrightarrow> EnvSkippedVariable (Name v) e \<in> set (Skipped r))
         else Process T R (Some c) s = (Inl e, s2)))
   \<and> ((\<forall>v\<in>set (Vars c). Optional v \<or> (\<forall>i s. \<exists>x s'. resolveVariable T R v i s = (Inr x, s')))
        \<longrightarrow> (\<exists>r s'. Process T R (Some c) s = (Inr r, s')))"
proof (intro conjI impI)
  assume a: "Vars c = pre @ v # post
      \<and> processVars T R pre 0 \<lparr>Values = Map.empty, Skipped = []\<rparr> s = (Inr r1, s1)
      \<and> resolveVariable T R v (length pre) s1 = (Inl e, s2)"
  then have run: "Process T R (Some c) s = processVars T R (v # post) (length pre) r1 s1"
    by (simp add: Process_def processVars_append)
  show "if Optional v then
           Process T R (Some c) s =
             processVars T R post (Suc (length pre))
               (r1\<lparr>Skipped := Skipped r1 @ [EnvSkippedVariable (Name v) e]\<rparr>) s2
           \<and> (\<forall>r s'. Process T R (Some c) s = (Inr r, s')
                \<longrightarrow> EnvSkippedVariable (Name v) e \<in> set (Skipped r))
         else Process T R (Some c) s = (Inl e, s2)"
  proof (cases "Optional v")
    case True
    with a run have cont: "Process T R (Some c) s =
        processVars T R post (Suc (length pre))
          (r1\<lparr>Skipped := Skipped r1 @ [EnvSkippedVariable (Name v) e]\<rparr>) s2" by simp
    have "EnvSkippedVariable (Name v) e \<in> set (Skipped r)"
      if "Process T R (Some c) s = (Inr r, s')" for r s'
      using processVars_Skipped_grows [of T R post "Suc (length pre)"
          "r1\<lparr>Skipped := Skipped r1 @ [EnvSkippedVariable (Name v) e]\<rparr>" s2 r s'] that cont
      by auto
    with True cont show ?thesis by simp
  next
    case False
    with a run show ?thesis by simp
  qed
next
  assume "\<forall>v\<in>set (Vars c). Optional v \<or> (\<forall>i s. \<exists>x s'. resolveVariable T R v i s = (Inr x, s'))"
  then show "\<exists>r s'. Process T R (Some c) s = (Inr r, s')"
    unfolding Process_def option.case by (rule processVars_total)
qed

text \<open>The variables of the example in \<open>docs/examples/devshell-env.md\<close>.\<close>

definition exampleVars :: "bool \<Rightarrow> envVariable list" where
  "exampleVars optional =
     [\<lparr>Name = ''API_TOKEN'', Reference = ''op://Homelab/API/token'', Value = [],
        Optional = False, PreserveWhitespace = False, Description = []\<rparr>,
      \<lparr>Name = ''LOCAL_DB_PASSWORD'', Reference = ''op://Homelab/Database/password'', Value = [],
        Optional = optional, PreserveWhitespace = False, Description = []\<rparr>,
      \<lparr>Name = ''STATIC_ENV'', Reference = [], Value = ''dev'',
        Optional = False, PreserveWhitespace = False, Description = []\<rparr>]"

theorem Process_failure_policy_witness:
  "isl (fst (Process trimBlanks loggingResolver
       (Some \<lparr>Vars = exampleVars False, Format = []\<rparr>) []))
   \<and> snd (Process trimBlanks loggingResolver
       (Some \<lparr>Vars = exampleVars False, Format = []\<rparr>) [])
      = [''op://Homelab/API/token'', ''op://Homelab/Database/password'']
   \<and> (\<exists>r. fst (Process trimBlanks loggingResolver
       (Some \<lparr>Vars = exampleVars True, Format = []\<rparr>) []) = Inr r
       \<and> map Skipped_Name (Skipped r) = [''LOCAL_DB_PASSWORD'']
       \<and> Values r ''API_TOKEN'' = Some ''s3cret''
       \<and> Values r ''STATIC_ENV'' = Some ''dev'')
   \<and> (\<exists>r s'. Process trimBlanks loggingResolver
       (Some \<lparr>Vars = [last (exampleVars False)], Format = []\<rparr>) [] = (Inr r, s'))"
proof -
  let ?pre = "[hd (exampleVars False)]"
  let ?post = "[last (exampleVars False)]"
  let ?r1 = "\<lparr>Values = [''API_TOKEN'' \<mapsto> ''s3cret''], Skipped = []\<rparr>"
  let ?s1 = "[''op://Homelab/API/token'']"
  let ?s2 = "[''op://Homelab/API/token'', ''op://Homelab/Database/password'']"
  let ?e = "\<lambda>b. projl (fst (resolveVariable trimBlanks loggingResolver (exampleVars b ! 1) 1 ?s1))"
  have strict: "Process trimBlanks loggingResolver
       (Some \<lparr>Vars = exampleVars False, Format = []\<rparr>) [] = (Inl (?e False), ?s2)"
    using Process_failure_policy [of "\<lparr>Vars = exampleVars False, Format = []\<rparr>"
        ?pre "exampleVars False ! 1" ?post trimBlanks loggingResolver "[]" ?r1 ?s1 "?e False" ?s2]
    by (simp add: exampleVars_def resolveVariable_def loggingResolver_def trimBlanks_def
        shouldTrim_def)
  have lenient: "Process trimBlanks loggingResolver
       (Some \<lparr>Vars = exampleVars True, Format = []\<rparr>) [] =
      processVars trimBlanks loggingResolver ?post 2
        (?r1\<lparr>Skipped := [EnvSkippedVariable ''LOCAL_DB_PASSWORD'' (?e True)]\<rparr>) ?s2"
    using Process_failure_policy [of "\<lparr>Vars = exampleVars True, Format = []\<rparr>"
        ?pre "exampleVars True ! 1" ?post trimBlanks loggingResolver "[]" ?r1 ?s1 "?e True" ?s2]
    by (simp add: exampleVars_def resolveVariable_def loggingResolver_def trimBlanks_def
        shouldTrim_def)
  have "\<forall>v\<in>set (Vars \<lparr>Vars = [last (exampleVars False)], Format = []\<rparr>).
      Optional v \<or> (\<forall>i s. \<exists>x s'. resolveVariable trimBlanks loggingResolver v i s = (Inr x, s'))"
    by (simp add: exampleVars_def resolveVariable_def shouldTrim_def)
  then have static: "\<exists>r s'. Process trimBlanks loggingResolver
       (Some \<lparr>Vars = [last (exampleVars False)], Format = []\<rparr>) [] = (Inr r, s')"
    by (rule Process_failure_policy [THEN conjunct2, THEN mp])
  have "isl (fst (Process trimBlanks loggingResolver
       (Some \<lparr>Vars = exampleVars False, Format = []\<rparr>) []))
   \<and> snd (Process trimBlanks loggingResolver
       (Some \<lparr>Vars = exampleVars False, Format = []\<rparr>) [])
      = [''op://Homelab/API/token'', ''op://Homelab/Database/password'']
   \<and> (\<exists>r. fst (Process trimBlanks loggingResolver
       (Some \<lparr>Vars = exampleVars True, Format = []\<rparr>) []) = Inr r
       \<and> map Skipped_Name (Skipped r) = [''LOCAL_DB_PASSWORD'']
       \<and> Values r ''API_TOKEN'' = Some ''s3cret''
       \<and> Values r ''STATIC_ENV'' = Some ''dev'')"
    unfolding strict lenient
    by (simp add: exampleVars_def resolveVariable_def loggingResolver_def trimBlanks_def
        shouldTrim_def)
  with static show ?thesis by blast
qed


subsection \<open>Rendering\<close>

text \<open>
  \<open>strings.ReplaceAll\<close> for a pattern of one byte, which is what every call in
  the source passes: each occurrence of the byte is replaced.
\<close>

definition ReplaceAll :: "string \<Rightarrow> char \<Rightarrow> string \<Rightarrow> string" where
  "ReplaceAll s old new = concat (map (\<lambda>c. if c = old then new else [c]) s)"

definition ContainsAny :: "string \<Rightarrow> string \<Rightarrow> bool" where
  "ContainsAny s chars = (\<exists>c\<in>set s. c \<in> set chars)"

definition shellQuote :: "string \<Rightarrow> string" where
  "shellQuote val =
     (if val = [] then [CHR 0x27, CHR 0x27]
      else [CHR 0x27]
        @ ReplaceAll val (CHR 0x27) [CHR 0x27, CHR 0x22, CHR 0x27, CHR 0x22, CHR 0x27]
        @ [CHR 0x27])"

definition dotenvValue :: "string \<Rightarrow> string" where
  "dotenvValue val =
     (if val = [] then []
      else if ContainsAny val [CHR '' '', CHR ''#'', CHR 0x22, CHR 0x27, CHR 0x0A, CHR 0x0D, CHR 0x09]
      then
        (let escaped = ReplaceAll val (CHR 0x5C) [CHR 0x5C, CHR 0x5C];
             escaped = ReplaceAll escaped (CHR 0x22) [CHR 0x5C, CHR 0x22];
             escaped = ReplaceAll escaped (CHR 0x0A) [CHR 0x5C, CHR ''n''];
             escaped = ReplaceAll escaped (CHR 0x0D) [CHR 0x5C, CHR ''r''];
             escaped = ReplaceAll escaped (CHR 0x09) [CHR 0x5C, CHR ''t'']
         in [CHR 0x22] @ escaped @ [CHR 0x22])
      else val)"

text \<open>
  A Go map is a finite map together with the order in which \<open>range\<close> happens to
  yield its keys, which the language leaves open: \<open>iteration\<close> is that order, a
  list of the keys of the map without repetition. \<open>values[key]\<close> of an absent key
  is the empty string.
\<close>

definition valueAt :: "(string \<rightharpoonup> string) \<Rightarrow> string \<Rightarrow> string" where
  "valueAt vals key = (case vals key of Some v \<Rightarrow> v | None \<Rightarrow> [])"

definition iterates :: "(string \<rightharpoonup> string) \<Rightarrow> string list \<Rightarrow> bool" where
  "iterates vals iteration \<longleftrightarrow> distinct iteration \<and> set iteration = dom vals"

definition renderShell :: "(string \<rightharpoonup> string) \<Rightarrow> string list \<Rightarrow> string" where
  "renderShell vals iteration =
     (let keys = sort iteration
      in concat (map (\<lambda>key. ''export '' @ key @ ''='' @ shellQuote (valueAt vals key) @ [CHR 0x0A])
           keys))"

definition renderDotenv :: "(string \<rightharpoonup> string) \<Rightarrow> string list \<Rightarrow> string" where
  "renderDotenv vals iteration =
     (let keys = sort iteration
      in concat (map (\<lambda>key. key @ ''='' @ dotenvValue (valueAt vals key) @ [CHR 0x0A]) keys))"

lemma sort_iteration:
  "iterates vals ks \<Longrightarrow> sort ks = sorted_list_of_set (dom vals)"
  unfolding iterates_def
  by (metis distinct_sort sorted_list_of_set.idem_if_sorted_distinct set_sort sorted_sort)

lemma count_ReplaceAll_other:
  "c \<noteq> old \<Longrightarrow> c \<notin> set new \<Longrightarrow> count_list (ReplaceAll s old new) c = count_list s c"
  unfolding ReplaceAll_def by (induction s) auto

lemma count_ReplaceAll_old:
  "old \<notin> set new \<Longrightarrow> count_list (ReplaceAll s old new) old = 0"
  unfolding ReplaceAll_def by (induction s) auto

lemma dotenvValue_no_newline: "count_list (dotenvValue v) CHR 0x0A = 0"
proof (cases "CHR 0x0A \<in> set v")
  case True
  then have "v \<noteq> []" "ContainsAny v [CHR '' '', CHR ''#'', CHR 0x22, CHR 0x27, CHR 0x0A, CHR 0x0D, CHR 0x09]"
    by (auto simp: ContainsAny_def)
  then show ?thesis
    by (simp add: dotenvValue_def Let_def count_ReplaceAll_other count_ReplaceAll_old)
next
  case False
  then have "count_list v CHR 0x0A = 0" by (simp add: count_list_0_iff)
  then show ?thesis
    by (simp add: dotenvValue_def Let_def count_ReplaceAll_other count_ReplaceAll_old)
qed


lemma shellQuote_newlines: "count_list (shellQuote v) CHR 0x0A = count_list v CHR 0x0A"
  by (simp add: shellQuote_def count_ReplaceAll_other)

lemma count_list_concat_map:
  "count_list (concat (map f xs)) c = sum_list (map (\<lambda>x. count_list (f x) c) xs)"
  by (induction xs) auto

lemma count_list_append: "count_list (xs @ ys) c = count_list xs c + count_list ys c"
  by (induction xs) auto

lemma sum_list_sorted_keys:
  "finite A \<Longrightarrow> sum_list (map g (sorted_list_of_set A)) = sum g A"
  using sum_list_distinct_conv_sum_set [of "sorted_list_of_set A" g] by simp

text \<open>
  Claim C10, as stated, at a value of two lines: \<open>shellQuote\<close> keeps the newline,
  so the one variable is rendered on two lines.
\<close>

theorem render_multiline_counterexample:
  "iterates [''KEY'' \<mapsto> ''a\<newline>b''] [''KEY'']
   \<and> card (dom [''KEY'' \<mapsto> ''a\<newline>b'']) = 1
   \<and> renderShell [''KEY'' \<mapsto> ''a\<newline>b''] [''KEY''] =
       ''export KEY='' @ [CHR 0x27] @ ''a\<newline>b'' @ [CHR 0x27] @ ''\<newline>''
   \<and> count_list (renderShell [''KEY'' \<mapsto> ''a\<newline>b''] [''KEY'']) CHR 0x0A = 2"
  by (simp add: iterates_def renderShell_def shellQuote_def ReplaceAll_def valueAt_def)

text \<open>
  Claim C10, amended. Whatever order the map is iterated in, \<open>renderShell\<close> and
  \<open>renderDotenv\<close> give the same text: one entry per key, each ended by a newline,
  in ascending order of the keys. When no key has a newline in it, the dotenv
  text has exactly one line per variable (newlines of a value are escaped), and
  the shell text has one line per variable plus one for each newline of a value.
\<close>

theorem render_deterministic:
  assumes "iterates vals ks" and "iterates vals ks'"
  shows "renderShell vals ks = renderShell vals ks'
    \<and> renderDotenv vals ks = renderDotenv vals ks'
    \<and> renderShell vals ks =
        concat (map (\<lambda>key. ''export '' @ key @ ''='' @ shellQuote (valueAt vals key) @ [CHR 0x0A])
          (sorted_list_of_set (dom vals)))
    \<and> renderDotenv vals ks =
        concat (map (\<lambda>key. key @ ''='' @ dotenvValue (valueAt vals key) @ [CHR 0x0A])
          (sorted_list_of_set (dom vals)))
    \<and> ((\<forall>key\<in>dom vals. CHR 0x0A \<notin> set key) \<longrightarrow>
         count_list (renderDotenv vals ks) CHR 0x0A = card (dom vals)
         \<and> count_list (renderShell vals ks) CHR 0x0A =
             card (dom vals) + (\<Sum>key\<in>dom vals. count_list (valueAt vals key) CHR 0x0A))"
proof -
  have fin: "finite (dom vals)"
    using assms(1) unfolding iterates_def by (metis List.finite_set)
  have k: "sort ks = sorted_list_of_set (dom vals)" "sort ks' = sorted_list_of_set (dom vals)"
    using assms by (simp_all add: sort_iteration)
  have sh: "renderShell vals ks =
        concat (map (\<lambda>key. ''export '' @ key @ ''='' @ shellQuote (valueAt vals key) @ [CHR 0x0A])
          (sorted_list_of_set (dom vals)))"
    unfolding renderShell_def Let_def k ..
  have de: "renderDotenv vals ks =
        concat (map (\<lambda>key. key @ ''='' @ dotenvValue (valueAt vals key) @ [CHR 0x0A])
          (sorted_list_of_set (dom vals)))"
    unfolding renderDotenv_def Let_def k ..
  have same: "renderShell vals ks = renderShell vals ks'" "renderDotenv vals ks = renderDotenv vals ks'"
    unfolding renderShell_def renderDotenv_def Let_def k by simp_all
  have counts: "count_list (renderDotenv vals ks) CHR 0x0A = card (dom vals)
         \<and> count_list (renderShell vals ks) CHR 0x0A =
             card (dom vals) + (\<Sum>key\<in>dom vals. count_list (valueAt vals key) CHR 0x0A)"
    if nl: "\<forall>key\<in>dom vals. CHR 0x0A \<notin> set key"
  proof -
    have zero: "count_list key CHR 0x0A = 0" if "key \<in> dom vals" for key
      using nl that by (simp add: count_list_0_iff)
    have "count_list (renderDotenv vals ks) CHR 0x0A =
        (\<Sum>key\<in>dom vals. count_list (key @ ''='' @ dotenvValue (valueAt vals key) @ [CHR 0x0A]) CHR 0x0A)"
      unfolding de count_list_concat_map using fin by (rule sum_list_sorted_keys)
    also have "\<dots> = (\<Sum>key\<in>dom vals. 1)"
      by (rule sum.cong) (simp_all add: count_list_append dotenvValue_no_newline zero)
    finally have d: "count_list (renderDotenv vals ks) CHR 0x0A = card (dom vals)" by simp
    have "count_list (renderShell vals ks) CHR 0x0A =
        (\<Sum>key\<in>dom vals. count_list
           (''export '' @ key @ ''='' @ shellQuote (valueAt vals key) @ [CHR 0x0A]) CHR 0x0A)"
      unfolding sh count_list_concat_map using fin by (rule sum_list_sorted_keys)
    also have "\<dots> = (\<Sum>key\<in>dom vals. 1 + count_list (valueAt vals key) CHR 0x0A)"
      by (rule sum.cong) (simp_all add: count_list_append shellQuote_newlines zero)
    also have "\<dots> = card (dom vals) + (\<Sum>key\<in>dom vals. count_list (valueAt vals key) CHR 0x0A)"
      by (simp add: sum_Suc)
    finally show ?thesis using d by simp
  qed
  from same sh de counts show ?thesis by blast
qed

theorem render_deterministic_witness:
  \<open>renderShell [''B'' \<mapsto> ''x y'', ''A'' \<mapsto> ''it is''] [''B'', ''A'']
     = renderShell [''B'' \<mapsto> ''x y'', ''A'' \<mapsto> ''it is''] [''A'', ''B'']
   \<and> renderDotenv [''B'' \<mapsto> ''x y'', ''A'' \<mapsto> ''it is''] [''B'', ''A'']
     = ''A="it is"\<newline>B="x y"\<newline>''
   \<and> count_list (renderDotenv [''B'' \<mapsto> ''x y'', ''A'' \<mapsto> ''it is''] [''B'', ''A'']) CHR 0x0A = 2\<close>
proof -
  let ?m = "[''B'' \<mapsto> ''x y'', ''A'' \<mapsto> ''it is'']"
  have it: "iterates ?m [''B'', ''A'']" "iterates ?m [''A'', ''B'']"
    by (auto simp: iterates_def)
  note det = render_deterministic [OF it]
  have "dom ?m = set [''A'', ''B'']"
    by auto
  then have sorted_keys: "sorted_list_of_set (dom ?m) = [''A'', ''B'']"
    by (simp only: sorted_list_of_set_sort_remdups) simp
  from det have same: "renderShell ?m [''B'', ''A''] = renderShell ?m [''A'', ''B'']"
    by (rule conjunct1)
  from det have "renderDotenv ?m [''B'', ''A''] =
      concat (map (\<lambda>key. key @ ''='' @ dotenvValue (valueAt ?m key) @ [CHR 0x0A])
        (sorted_list_of_set (dom ?m)))"
    by blast
  then have rendered: "renderDotenv ?m [''B'', ''A''] =
      [CHR ''A'', CHR ''='', CHR 0x22, CHR ''i'', CHR ''t'', CHR '' '', CHR ''i'', CHR ''s'',
       CHR 0x22, CHR 0x0A, CHR ''B'', CHR ''='', CHR 0x22, CHR ''x'', CHR '' '', CHR ''y'',
       CHR 0x22, CHR 0x0A]"
    unfolding sorted_keys
    by (simp add: dotenvValue_def ContainsAny_def ReplaceAll_def valueAt_def)
  have "\<forall>key\<in>dom ?m. CHR 0x0A \<notin> set key"
    by simp
  with det have "count_list (renderDotenv ?m [''B'', ''A'']) CHR 0x0A = card (dom ?m)"
    by blast
  then have lines: "count_list (renderDotenv ?m [''B'', ''A'']) CHR 0x0A = 2"
    by simp
  from same rendered lines show ?thesis
    by simp
qed


section \<open>The NixOS module\<close>

subsection \<open>Options\<close>

text \<open>
  The options of \<open>services.onepassword-secrets\<close>. An attribute set
  (\<open>attrsOf\<close>) is a list of name and value with distinct names, in the order
  \<open>mapAttrsToList\<close> and \<open>mapAttrs\<close> visit it; \<open>nullOr\<close> is \<open>option\<close>.
\<close>

record secretOptions =
  reference :: string
  path :: "string option"
  symlinks :: "string list"
  variables :: "(string \<times> string) list"
  owner :: string
  group :: string
  mode :: string

record moduleConfig =
  enable :: bool
  tokenFile :: string
  configFiles :: "string list"
  outputDir :: string
  users :: "string list"
  secrets :: "(string \<times> secretOptions) list"
  pathTemplate :: "string option"
  defaults :: "(string \<times> string) list"

subsection \<open>The generated manifest and the list of configuration files\<close>

record manifestSecret =
  json_path :: string
  json_reference :: string
  json_owner :: string
  json_group :: string
  json_mode :: string
  json_symlinks :: "string list"
  json_variables :: "(string \<times> string) list"

record manifest =
  json_secrets :: "manifestSecret list"
  json_pathTemplate :: "string option"
  json_defaults :: "(string \<times> string) list"

text \<open>
  A configuration file handed to the tool: a path the user listed, or the file
  \<open>pkgs.writeText\<close> generates from the declarative secrets, known by its content.
\<close>

datatype configFile = UserFile string | WrittenText string manifest

definition hasMultipleConfigs :: "moduleConfig \<Rightarrow> bool" where
  "hasMultipleConfigs cfg = (configFiles cfg \<noteq> [])"

definition hasDeclarativeSecrets :: "moduleConfig \<Rightarrow> bool" where
  "hasDeclarativeSecrets cfg = (secrets cfg \<noteq> [])"

definition configCount :: "moduleConfig \<Rightarrow> nat" where
  "configCount cfg = length (filter (\<lambda>x. x) [hasMultipleConfigs cfg, hasDeclarativeSecrets cfg])"

definition declarativeConfigFile :: "moduleConfig \<Rightarrow> configFile option" where
  "declarativeConfigFile cfg =
     (if hasDeclarativeSecrets cfg then
        Some (WrittenText ''opnix-declarative-secrets.json''
          \<lparr>json_secrets =
             map (\<lambda>(name, secret).
                   \<lparr>json_path = (if path secret \<noteq> None then the (path secret) else name),
                    json_reference = reference secret,
                    json_owner = owner secret,
                    json_group = group secret,
                    json_mode = mode secret,
                    json_symlinks = symlinks secret,
                    json_variables = variables secret\<rparr>)
               (secrets cfg),
           json_pathTemplate = pathTemplate cfg,
           json_defaults = defaults cfg\<rparr>)
      else None)"

definition allConfigFiles :: "moduleConfig \<Rightarrow> configFile list" where
  "allConfigFiles cfg =
     map the (filter (\<lambda>f. f \<noteq> None)
       (map (\<lambda>p. Some (UserFile p)) (configFiles cfg)
        @ (if hasDeclarativeSecrets cfg then [declarativeConfigFile cfg] else [])))"

subsection \<open>Assertions\<close>

text \<open>
  \<^verbatim>\<open>builtins.match "^[0-7]{3,4}$" secret.mode != null\<close>: \<open>builtins.match\<close> matches
  the whole string.
\<close>

definition modePattern :: rexp where
  "modePattern = between 3 4 (Range CHR ''0'' CHR ''7'')"

definition modeAssertion :: "string \<Rightarrow> secretOptions \<Rightarrow> bool \<times> string" where
  "modeAssertion name secret =
     (matches modePattern (mode secret),
      ''OpNix secret '' @ [CHR 0x27] @ name @ [CHR 0x27] @ '': mode '' @ [CHR 0x27] @ mode secret
        @ [CHR 0x27] @ '' is not a valid octal permission (e.g., 0644, 0600)'')"

definition assertions :: "moduleConfig \<Rightarrow> (bool \<times> string) list" where
  "assertions cfg =
     [(configCount cfg > 0, ''OpNix: At least one of configFiles or secrets must be specified'')]
     @ concat (map (\<lambda>(name, secret). [modeAssertion name secret]) (secrets cfg))"

subsection \<open>The service\<close>

text \<open>One run of the tool, as the script writes it.\<close>

datatype command = OpnixSecret (tokenFileArg: string) (configArg: configFile) (outputArg: string)

definition secretCommands :: "moduleConfig \<Rightarrow> command list" where
  "secretCommands cfg =
     map (\<lambda>configFile. OpnixSecret (tokenFile cfg) configFile (outputDir cfg)) (allConfigFiles cfg)"

definition secretPaths :: "moduleConfig \<Rightarrow> (string \<times> string) list" where
  "secretPaths cfg =
     map (\<lambda>(name, secret).
           (name, if path secret \<noteq> None then the (path secret) else outputDir cfg @ ''/'' @ name))
       (secrets cfg)"

text \<open>
  The module system evaluates the configuration before anything is built or
  run: with \<open>enable\<close> unset the module contributes nothing; a failed assertion
  stops the evaluation with the messages of the failed assertions; otherwise
  the service and the secret paths are defined.
\<close>

record serviceConfig =
  script :: "command list"
  paths :: "(string \<times> string) list"

definition evalModule :: "moduleConfig \<Rightarrow> string list + serviceConfig option" where
  "evalModule cfg =
     (if \<not> enable cfg then Inr None
      else
        (let failed = map snd (filter (\<lambda>(assertion, message). \<not> assertion) (assertions cfg))
         in if failed \<noteq> [] then Inl failed
            else Inr (Some \<lparr>script = secretCommands cfg, paths = secretPaths cfg\<rparr>)))"

text \<open>
  Running the script. The tool (\<open>opnix secret\<close>) is a parameter: it takes the
  command and the state of the host and returns its exit status and the new
  state. The script first looks at the token file: it ends with status 0 when
  the file is missing, with status 1 when it is unreadable or empty. Then the
  commands run in sequence; NixOS runs a unit's script under \<open>set -e\<close>, so the
  first command that fails ends it. The preparation of the output directory
  and of the token file's ownership, which come first in the script, are left
  out: they touch no secret.
\<close>

datatype tokenFileState = Missing | Unreadable | EmptyToken | Usable

fun runCommands :: "(command \<Rightarrow> 'w \<Rightarrow> nat \<times> 'w) \<Rightarrow> command list \<Rightarrow> 'w \<Rightarrow> nat \<times> 'w" where
  "runCommands tool [] w = (0, w)"
| "runCommands tool (c # cs) w =
     (case tool c w of (status, w') \<Rightarrow> if status = 0 then runCommands tool cs w' else (status, w'))"

definition runScript ::
  "(command \<Rightarrow> 'w \<Rightarrow> nat \<times> 'w) \<Rightarrow> moduleConfig \<Rightarrow> tokenFileState \<Rightarrow> 'w \<Rightarrow> nat \<times> 'w" where
  "runScript tool cfg token w =
     (case token of
        Missing \<Rightarrow> (0, w)
      | Unreadable \<Rightarrow> (1, w)
      | EmptyToken \<Rightarrow> (1, w)
      | Usable \<Rightarrow> runCommands tool (secretCommands cfg) w)"


subsection \<open>Mode validation\<close>

lemma modePattern_iff:
  "matches modePattern s \<longleftrightarrow>
     (length s = 3 \<or> length s = 4) \<and> (\<forall>c\<in>set s. CHR ''0'' \<le> c \<and> c \<le> CHR ''7'')"
proof -
  have cls: "lang (Range CHR ''0'' CHR ''7'') = {[c] | c. CHR ''0'' \<le> c \<and> c \<le> CHR ''7''}"
    by (simp add: in_range_def)
  have "matches modePattern s \<longleftrightarrow>
      3 \<le> length s \<and> length s \<le> 4 \<and> (\<forall>c\<in>set s. CHR ''0'' \<le> c \<and> c \<le> CHR ''7'')"
    unfolding matches_lang modePattern_def using lang_between_class [OF cls, of 3 4] by simp
  then show ?thesis by auto
qed

lemma failed_assertion_stops:
  assumes "enable cfg" and "(False, message) \<in> set (assertions cfg)"
  shows "\<exists>failed. evalModule cfg = Inl failed \<and> message \<in> set failed"
proof -
  let ?failed = "map snd (filter (\<lambda>(assertion, message). \<not> assertion) (assertions cfg))"
  from assms(2) have "message \<in> set ?failed" by force
  moreover from this have "?failed \<noteq> []" by (metis empty_iff list.set(1))
  ultimately show ?thesis using assms(1) by (simp add: evalModule_def Let_def)
qed

lemma no_failed_assertion:
  assumes "enable cfg" and "\<forall>a\<in>set (assertions cfg). fst a"
  shows "evalModule cfg = Inr (Some \<lparr>script = secretCommands cfg, paths = secretPaths cfg\<rparr>)"
proof -
  from assms(2) have "filter (\<lambda>(assertion, message). \<not> assertion) (assertions cfg) = []"
    by (auto simp: filter_empty_conv)
  with assms(1) show ?thesis by (simp add: evalModule_def Let_def)
qed

text \<open>
  Claim C7. The assertion the module makes for a declared secret holds exactly
  when the secret's \<open>mode\<close> is three or four characters, each an octal digit. When
  the module is enabled and the assertion of one of its secrets fails, the
  evaluation of the configuration stops with that assertion's message, so no
  service exists that could resolve or write a secret; when a configuration is
  given and every mode is valid, the service is defined. \<open>0644\<close> is accepted and
  \<open>abc\<close> is rejected.
\<close>

theorem mode_validation:
  "(fst (modeAssertion name secret) \<longleftrightarrow>
      (length (mode secret) = 3 \<or> length (mode secret) = 4)
      \<and> (\<forall>c\<in>set (mode secret). CHR ''0'' \<le> c \<and> c \<le> CHR ''7''))
   \<and> (enable cfg \<and> (name, secret) \<in> set (secrets cfg) \<and> \<not> fst (modeAssertion name secret)
        \<longrightarrow> (\<exists>failed. evalModule cfg = Inl failed
               \<and> snd (modeAssertion name secret) \<in> set failed))
   \<and> (enable cfg \<and> 0 < configCount cfg
        \<and> (\<forall>(name, secret)\<in>set (secrets cfg). fst (modeAssertion name secret))
        \<longrightarrow> evalModule cfg = Inr (Some \<lparr>script = secretCommands cfg, paths = secretPaths cfg\<rparr>))
   \<and> fst (modeAssertion name (secret\<lparr>mode := ''0644''\<rparr>))
   \<and> \<not> fst (modeAssertion name (secret\<lparr>mode := ''abc''\<rparr>))"
proof (intro conjI impI)
  show "fst (modeAssertion name secret) \<longleftrightarrow>
      (length (mode secret) = 3 \<or> length (mode secret) = 4)
      \<and> (\<forall>c\<in>set (mode secret). CHR ''0'' \<le> c \<and> c \<le> CHR ''7'')"
    by (simp add: modeAssertion_def modePattern_iff)
next
  assume a: "enable cfg \<and> (name, secret) \<in> set (secrets cfg) \<and> \<not> fst (modeAssertion name secret)"
  then have "modeAssertion name secret \<in> set (assertions cfg)"
    unfolding assertions_def by force
  with a have "(False, snd (modeAssertion name secret)) \<in> set (assertions cfg)"
    by (metis prod.collapse)
  with a show "\<exists>failed. evalModule cfg = Inl failed \<and> snd (modeAssertion name secret) \<in> set failed"
    by (blast intro: failed_assertion_stops)
next
  assume a: "enable cfg \<and> 0 < configCount cfg
        \<and> (\<forall>(name, secret)\<in>set (secrets cfg). fst (modeAssertion name secret))"
  have "fst x" if "x \<in> set (assertions cfg)" for x
  proof -
    from that consider "fst x = (0 < configCount cfg)"
      | name secret where "(name, secret) \<in> set (secrets cfg)" "x = modeAssertion name secret"
      unfolding assertions_def by auto
    then show ?thesis using a by cases auto
  qed
  then have "\<forall>a\<in>set (assertions cfg). fst a" by blast
  with a show "evalModule cfg = Inr (Some \<lparr>script = secretCommands cfg, paths = secretPaths cfg\<rparr>)"
    by (blast intro: no_failed_assertion)
next
  show "fst (modeAssertion name (secret\<lparr>mode := ''0644''\<rparr>))"
    unfolding modeAssertion_def fst_conv modePattern_iff by simp
next
  show "\<not> fst (modeAssertion name (secret\<lparr>mode := ''abc''\<rparr>))"
    unfolding modeAssertion_def fst_conv modePattern_iff by simp
qed

text \<open>The example of the configuration reference: a certificate readable by its service.\<close>

definition certSecret :: "string \<Rightarrow> secretOptions" where
  "certSecret m =
     \<lparr>reference = ''op://Vault/SSL/certificate'', path = Some ''/etc/ssl/certs/app.pem'',
      symlinks = [''/etc/ssl/certs/legacy.pem''], variables = [],
      owner = ''caddy'', group = ''caddy'', mode = m\<rparr>"

definition certConfig :: "string \<Rightarrow> moduleConfig" where
  "certConfig m =
     \<lparr>enable = True, tokenFile = ''/etc/opnix-token'', configFiles = [],
      outputDir = ''/var/lib/opnix/secrets'', users = [],
      secrets = [(''ssl/cert'', certSecret m)], pathTemplate = None, defaults = []\<rparr>"

theorem mode_validation_witness:
  "evalModule (certConfig ''0644'') =
     Inr (Some \<lparr>script = secretCommands (certConfig ''0644''), paths = secretPaths (certConfig ''0644'')\<rparr>)
   \<and> (\<exists>failed. evalModule (certConfig ''abc'') = Inl failed
        \<and> snd (modeAssertion ''ssl/cert'' (certSecret ''abc'')) \<in> set failed)"
proof -
  note ok = mode_validation [of "''ssl/cert''" "certSecret ''0644''" "certConfig ''0644''"]
  note bad = mode_validation [of "''ssl/cert''" "certSecret ''abc''" "certConfig ''abc''"]
  have "fst (modeAssertion ''ssl/cert'' (certSecret ''0644''))"
    using ok by (simp add: certSecret_def)
  moreover have "enable (certConfig ''0644'')" "0 < configCount (certConfig ''0644'')"
    "set (secrets (certConfig ''0644'')) = {(''ssl/cert'', certSecret ''0644'')}"
    by (simp_all add: certConfig_def configCount_def hasDeclarativeSecrets_def)
  ultimately have 1: "evalModule (certConfig ''0644'') =
     Inr (Some \<lparr>script = secretCommands (certConfig ''0644''), paths = secretPaths (certConfig ''0644'')\<rparr>)"
    using ok by simp
  have "\<not> fst (modeAssertion ''ssl/cert'' (certSecret ''abc''))"
    using bad by (simp add: certSecret_def)
  moreover have "enable (certConfig ''abc'')"
    "(''ssl/cert'', certSecret ''abc'') \<in> set (secrets (certConfig ''abc''))"
    by (simp_all add: certConfig_def)
  ultimately have 2: "\<exists>failed. evalModule (certConfig ''abc'') = Inl failed
        \<and> snd (modeAssertion ''ssl/cert'' (certSecret ''abc'')) \<in> set failed"
    using bad by blast
  from 1 2 show ?thesis ..
qed


subsection \<open>Secret paths\<close>

text \<open>
  The example of the configuration reference under ``Path Templates'', which
  says of its secret: ``Results in: /etc/secrets/postgresql/prod/database-password''.
\<close>

definition templateConfig :: moduleConfig where
  "templateConfig =
     \<lparr>enable = True, tokenFile = ''/etc/opnix-token'', configFiles = [],
      outputDir = ''/var/lib/opnix/secrets'', users = [],
      secrets =
        [(''database-password'',
          \<lparr>reference = ''op://Homelab/Database/password'', path = None, symlinks = [],
           variables = [(''service'', ''postgresql'')],
           owner = ''root'', group = ''root'', mode = ''0600''\<rparr>)],
      pathTemplate = Some ''/etc/secrets/{service}/{environment}/{name}'',
      defaults = [(''environment'', ''prod'')]\<rparr>"

text \<open>
  Claim C4 at that configuration: \<open>secretPaths\<close> never reads \<open>pathTemplate\<close>, so a
  secret without an explicit path is announced under \<open>outputDir\<close> although a
  template applies.
\<close>

theorem secretPaths_ignores_pathTemplate:
  "secretPaths templateConfig =
     [(''database-password'', ''/var/lib/opnix/secrets/database-password'')]
   \<and> secretPaths (cfg\<lparr>pathTemplate := t, defaults := d\<rparr>) = secretPaths cfg"
  by (auto simp add: secretPaths_def templateConfig_def)

subsection \<open>Several configuration files\<close>

lemma allConfigFiles_eq:
  "allConfigFiles cfg =
     map UserFile (configFiles cfg)
     @ (case declarativeConfigFile cfg of None \<Rightarrow> [] | Some f \<Rightarrow> [f])"
proof -
  have "map the (filter (\<lambda>f. f \<noteq> None) (map (\<lambda>p. Some (UserFile p)) ps)) = map UserFile ps"
    for ps
    by (induction ps) auto
  then show ?thesis
    by (simp add: allConfigFiles_def declarativeConfigFile_def)
qed

lemma runCommands_append:
  "runCommands tool (before @ rest) w =
     (case runCommands tool before w of
        (status, w') \<Rightarrow> if status = 0 then runCommands tool rest w' else (status, w'))"
  by (induction before arbitrary: w) (auto split: prod.splits)

text \<open>
  A stand-in for the tool in concrete runs: the state is the list of
  configuration files whose secrets have been deployed; the tool deploys the
  file it is given, unless that is the file \<open>bad\<close>, which it rejects on loading.
\<close>

definition rejecting :: "configFile \<Rightarrow> command \<Rightarrow> configFile list \<Rightarrow> nat \<times> configFile list" where
  "rejecting bad c deployed =
     (if configArg c = bad then (1, deployed) else (0, deployed @ [configArg c]))"

definition twoFiles :: moduleConfig where
  "twoFiles =
     \<lparr>enable = True, tokenFile = ''/etc/opnix-token'',
      configFiles = [''/etc/opnix/database-secrets.json'', ''/etc/opnix/api-secrets.json''],
      outputDir = ''/var/lib/opnix/secrets'', users = [],
      secrets = [], pathTemplate = None, defaults = []\<rparr>"

text \<open>
  Claim C6, as stated, at two configuration files of which the second is
  rejected on loading: the tool runs once per file, so the secrets of the first
  file are deployed before the second file is loaded, and they stay deployed
  when the second is rejected.
\<close>

theorem separate_runs_counterexample:
  "secretCommands twoFiles =
     [OpnixSecret ''/etc/opnix-token'' (UserFile ''/etc/opnix/database-secrets.json'')
        ''/var/lib/opnix/secrets'',
      OpnixSecret ''/etc/opnix-token'' (UserFile ''/etc/opnix/api-secrets.json'')
        ''/var/lib/opnix/secrets'']
   \<and> runScript (rejecting (UserFile ''/etc/opnix/api-secrets.json'')) twoFiles Usable [] =
       (1, [UserFile ''/etc/opnix/database-secrets.json''])"
  by (simp add: secretCommands_def allConfigFiles_def twoFiles_def hasDeclarativeSecrets_def
      runScript_def rejecting_def)

text \<open>
  Claim C6, amended. The script hands the configuration files to the tool one
  at a time, each in a run of its own: the files the user listed, in the order
  of the list, then the file generated from the declarative secrets; nothing is
  merged, and a file listed twice is processed twice. The run for a file starts
  in the state that the complete runs for the files before it have left. If it
  succeeds, the script goes on with the files after it; if it fails, the script
  ends with its status in the state it left, with the effects of the earlier
  runs in place and the later files never loaded.
\<close>

theorem script_runs_tool_per_file:
  "map configArg (secretCommands cfg) =
     map UserFile (configFiles cfg)
     @ (case declarativeConfigFile cfg of None \<Rightarrow> [] | Some f \<Rightarrow> [f])
   \<and> (secretCommands cfg = before @ c # rest
        \<and> runCommands tool before w = (0, w1) \<and> tool c w1 = (status, w2)
       \<longrightarrow> runScript tool cfg Usable w =
             (if status = 0 then runCommands tool rest w2 else (status, w2)))"
proof (intro conjI impI)
  show "map configArg (secretCommands cfg) =
     map UserFile (configFiles cfg)
     @ (case declarativeConfigFile cfg of None \<Rightarrow> [] | Some f \<Rightarrow> [f])"
    by (simp add: secretCommands_def allConfigFiles_eq comp_def)
next
  assume "secretCommands cfg = before @ c # rest
        \<and> runCommands tool before w = (0, w1) \<and> tool c w1 = (status, w2)"
  then show "runScript tool cfg Usable w =
      (if status = 0 then runCommands tool rest w2 else (status, w2))"
    by (simp add: runScript_def runCommands_append)
qed

theorem script_runs_tool_per_file_witness:
  "runScript (rejecting (UserFile ''/etc/opnix/nothing.json'')) twoFiles Usable [] =
     (0, [UserFile ''/etc/opnix/database-secrets.json'', UserFile ''/etc/opnix/api-secrets.json''])
   \<and> map configArg (secretCommands twoFiles) =
     [UserFile ''/etc/opnix/database-secrets.json'', UserFile ''/etc/opnix/api-secrets.json'']"
proof -
  let ?tool = "rejecting (UserFile ''/etc/opnix/nothing.json'')"
  let ?a = "OpnixSecret ''/etc/opnix-token'' (UserFile ''/etc/opnix/database-secrets.json'')
        ''/var/lib/opnix/secrets''"
  let ?b = "OpnixSecret ''/etc/opnix-token'' (UserFile ''/etc/opnix/api-secrets.json'')
        ''/var/lib/opnix/secrets''"
  have cmds: "secretCommands twoFiles = [?a] @ ?b # []"
    by (simp add: secretCommands_def allConfigFiles_def twoFiles_def hasDeclarativeSecrets_def)
  have first: "runCommands ?tool [?a] [] = (0, [UserFile ''/etc/opnix/database-secrets.json''])"
    by (simp add: rejecting_def)
  have second: "?tool ?b [UserFile ''/etc/opnix/database-secrets.json''] =
      (0, [UserFile ''/etc/opnix/database-secrets.json'', UserFile ''/etc/opnix/api-secrets.json''])"
    by (simp add: rejecting_def)
  note per_file = script_runs_tool_per_file [of twoFiles "[?a]" ?b "[]" ?tool "[]" _ 0 _]
  from per_file cmds first second
  have "runScript ?tool twoFiles Usable [] =
     (0, [UserFile ''/etc/opnix/database-secrets.json'', UserFile ''/etc/opnix/api-secrets.json''])"
    by simp
  moreover from per_file have "map configArg (secretCommands twoFiles) =
     [UserFile ''/etc/opnix/database-secrets.json'', UserFile ''/etc/opnix/api-secrets.json'']"
    by (simp add: twoFiles_def declarativeConfigFile_def hasDeclarativeSecrets_def)
  ultimately show ?thesis by simp
qed


section \<open>The deployment engine, from its specification\<close>

text \<open>
  The NixOS unit calls \<open>opnix secret\<close>, and the configuration reference
  documents its options, but the command itself (manifest loader, hash store,
  change detector, materializer, notifier, orchestrator) is not among the
  sources. The definitions of this section follow the specification's
  description of it.
\<close>

subsection \<open>Path templates\<close>

text \<open>
  Modelled from the spec: the \<open>ConfigError\<close> of the manifest loader for a template
  variable without a value; it names the variable.
\<close>

datatype configError = MissingVariable string

text \<open>
  Modelled from the spec: the name of a placeholder, read up to its closing
  brace, and the text after it.
\<close>

fun takeVar :: "string \<Rightarrow> (string \<times> string) option" where
  "takeVar [] = None"
| "takeVar (c # cs) =
     (if c = CHR ''}'' then Some ([], cs)
      else (case takeVar cs of None \<Rightarrow> None | Some (v, rest) \<Rightarrow> Some (c # v, rest)))"

lemma takeVar_shorter: "takeVar cs = Some (v, rest) \<Longrightarrow> length rest < length cs"
  by (induction cs arbitrary: v rest) (auto split: if_splits option.splits)

text \<open>
  Modelled from the spec: the manifest loader's expansion of a path template,
  which is not among the sources. A template is a string with \<open>{var}\<close>
  placeholders; each placeholder is replaced by the value of its variable, and a
  variable without a value is a \<open>ConfigError\<close> that names it. A \<open>{\<close> that is never
  closed is kept as text.
\<close>

function expandTemplate :: "(string \<rightharpoonup> string) \<Rightarrow> string \<Rightarrow> configError + string" where
  "expandTemplate val [] = Inr []"
| "expandTemplate val (c # cs) =
     (if c = CHR ''{'' then
        (case takeVar cs of
           None \<Rightarrow> Inr (c # cs)
         | Some (v, rest) \<Rightarrow>
             (case val v of
                None \<Rightarrow> Inl (MissingVariable v)
              | Some x \<Rightarrow>
                  (case expandTemplate val rest of Inl e \<Rightarrow> Inl e | Inr t \<Rightarrow> Inr (x @ t))))
      else (case expandTemplate val cs of Inl e \<Rightarrow> Inl e | Inr t \<Rightarrow> Inr (c # t)))"
  by pat_completeness auto
termination
  by (relation "measure (\<lambda>(val, s). length s)") (auto dest: takeVar_shorter)

text \<open>
  Modelled from the spec: a secret descriptor as the loader reads it, with the
  fields that decide its destination.
\<close>

record secretSpec =
  spec_name :: string
  spec_path :: "string option"
  spec_variables :: "(string \<times> string) list"

text \<open>
  Modelled from the spec: the manifest-wide path template and defaults.
\<close>

record secretManifest =
  manifest_pathTemplate :: "string option"
  manifest_defaults :: "(string \<times> string) list"

text \<open>
  Modelled from the spec: the value of a template variable comes from the
  secret's \<open>variables\<close>, else from the manifest's \<open>defaults\<close>; \<open>{name}\<close> is the secret's
  name when neither defines it.
\<close>

definition templateValue :: "secretManifest \<Rightarrow> secretSpec \<Rightarrow> string \<rightharpoonup> string" where
  "templateValue m s v =
     (case map_of (spec_variables s) v of
        Some x \<Rightarrow> Some x
      | None \<Rightarrow>
          (case map_of (manifest_defaults m) v of
             Some x \<Rightarrow> Some x
           | None \<Rightarrow> if v = ''name'' then Some (spec_name s) else None))"

text \<open>
  Modelled from the spec: the destination of a secret is its explicit path; if
  absent, the expansion of the path template; else \<open>outputDir/name\<close>. Variables in
  a custom path are expanded as well.
\<close>

definition destination :: "string \<Rightarrow> secretManifest \<Rightarrow> secretSpec \<Rightarrow> configError + string" where
  "destination outDir m s =
     (case spec_path s of
        Some p \<Rightarrow> expandTemplate (templateValue m s) p
      | None \<Rightarrow>
          (case manifest_pathTemplate m of
             Some t \<Rightarrow> expandTemplate (templateValue m s) t
           | None \<Rightarrow> Inr (outDir @ ''/'' @ spec_name s)))"

lemma expandTemplate_names_missing:
  "expandTemplate val t = Inl (MissingVariable v) \<Longrightarrow> val v = None"
  by (induction val t rule: expandTemplate.induct)
    (auto split: if_splits option.splits sum.splits)

text \<open>
  Claim C5. The template of the example expands to \<open>/etc/secrets/pg/dbpass\<close>; without
  \<open>service\<close> in the secret's variables (and none in the defaults) loading fails with
  the error that names \<open>service\<close>. In general, the variable an expansion error
  names is one that has no value.
\<close>

theorem template_example:
  "destination outDir
     \<lparr>manifest_pathTemplate = Some ''/etc/secrets/{service}/{name}'',
      manifest_defaults = [(''environment'', ''prod'')]\<rparr>
     \<lparr>spec_name = ''dbpass'', spec_path = None, spec_variables = [(''service'', ''pg'')]\<rparr>
     = Inr ''/etc/secrets/pg/dbpass''
   \<and> destination outDir
     \<lparr>manifest_pathTemplate = Some ''/etc/secrets/{service}/{name}'',
      manifest_defaults = [(''environment'', ''prod'')]\<rparr>
     \<lparr>spec_name = ''dbpass'', spec_path = None, spec_variables = []\<rparr>
     = Inl (MissingVariable ''service'')
   \<and> (\<forall>m s v. destination outDir m s = Inl (MissingVariable v)
        \<longrightarrow> map_of (spec_variables s) v = None \<and> map_of (manifest_defaults m) v = None)"
proof (intro conjI allI impI)
  show "destination outDir
     \<lparr>manifest_pathTemplate = Some ''/etc/secrets/{service}/{name}'',
      manifest_defaults = [(''environment'', ''prod'')]\<rparr>
     \<lparr>spec_name = ''dbpass'', spec_path = None, spec_variables = [(''service'', ''pg'')]\<rparr>
     = Inr ''/etc/secrets/pg/dbpass''"
    by (simp add: destination_def templateValue_def)
next
  show "destination outDir
     \<lparr>manifest_pathTemplate = Some ''/etc/secrets/{service}/{name}'',
      manifest_defaults = [(''environment'', ''prod'')]\<rparr>
     \<lparr>spec_name = ''dbpass'', spec_path = None, spec_variables = []\<rparr>
     = Inl (MissingVariable ''service'')"
    by (simp add: destination_def templateValue_def)
next
  fix m s v
  assume "destination outDir m s = Inl (MissingVariable v)"
  then have "templateValue m s v = None"
    by (auto simp: destination_def split: option.splits dest: expandTemplate_names_missing)
  then show "map_of (spec_variables s) v = None"
    by (auto simp: templateValue_def split: option.splits)
next
  fix m s v
  assume "destination outDir m s = Inl (MissingVariable v)"
  then have "templateValue m s v = None"
    by (auto simp: destination_def split: option.splits dest: expandTemplate_names_missing)
  then show "map_of (manifest_defaults m) v = None"
    by (auto simp: templateValue_def split: option.splits)
qed

theorem template_example_witness:
  "destination ''/var/lib/opnix/secrets''
     \<lparr>manifest_pathTemplate = Some ''/etc/secrets/{service}/{environment}/{name}'',
      manifest_defaults = []\<rparr>
     \<lparr>spec_name = ''database-password'', spec_path = None,
      spec_variables = [(''service'', ''postgresql'')]\<rparr>
     = Inl (MissingVariable ''environment'')
   \<and> map_of ([] :: (string \<times> string) list) ''environment'' = None"
proof -
  have "destination ''/var/lib/opnix/secrets''
     \<lparr>manifest_pathTemplate = Some ''/etc/secrets/{service}/{environment}/{name}'',
      manifest_defaults = []\<rparr>
     \<lparr>spec_name = ''database-password'', spec_path = None,
      spec_variables = [(''service'', ''postgresql'')]\<rparr>
     = Inl (MissingVariable ''environment'')"
    by (simp add: destination_def templateValue_def)
  with template_example [of "''/var/lib/opnix/secrets''"] show ?thesis
    by simp
qed


subsection \<open>Orchestration\<close>

text \<open>
  The defaults of \<open>systemdIntegration.errorHandling\<close>, as the configuration
  reference (\<open>docs/configuration-reference.md\<close>) lists them.
\<close>

record errorHandling =
  rollbackOnFailure :: bool
  continueOnError :: bool
  maxRetries :: nat

definition errorHandlingDefaults :: errorHandling where
  "errorHandlingDefaults = \<lparr>rollbackOnFailure = False, continueOnError = True, maxRetries = 3\<rparr>"

text \<open>
  Modelled from the spec (4.2): the failures of the secret resolver. The run of
  the deployment engine that the following definitions describe is not among
  the sources.
\<close>

datatype resolveFailure = NotFound | AuthDenied | Unavailable

text \<open>Modelled from the spec (3): the status of a secret in the report of a run.\<close>

datatype outcome = Unchanged | Written | Failed | Skipped

text \<open>Modelled from the spec (6): the overall status of a run.\<close>

datatype runStatus = Success | PartialFailure | Failure

text \<open>
  Modelled from the spec (3): a validated, path-resolved secret descriptor, with
  the names of the services attached to it.
\<close>

record deployedSecret =
  secret_name :: string
  secret_reference :: string
  secret_destination :: string
  secret_services :: "string list"

text \<open>
  Modelled from the spec (3): the record the hash store keeps under a secret's
  name.
\<close>

record 'h hashRecord =
  contentHash :: 'h
  lastAppliedAt :: nat

text \<open>
  Modelled from the spec: the host, as far as a run reads and writes it: the
  content of the destination files and the hash store file.
\<close>

record 'h host =
  files :: "string \<rightharpoonup> string"
  hashStore :: "string \<rightharpoonup> 'h hashRecord"

text \<open>Modelled from the spec (3): the report of a run.\<close>

record runReport =
  outcomes :: "(string \<times> outcome) list"
  notified :: "string list"
  overall :: runStatus

text \<open>
  Modelled from the spec: the capabilities a run is given. \<open>resolve\<close> answers the
  attempt of a given number for a reference; \<open>digest\<close> is the content digest;
  \<open>writable\<close> tells whether the write of a destination succeeds; \<open>clock\<close> is the time
  of the run.
\<close>

record 'h capabilities =
  resolve :: "string \<Rightarrow> nat \<Rightarrow> resolveFailure + string"
  digest :: "string \<Rightarrow> 'h"
  writable :: "string \<Rightarrow> bool"
  clock :: nat

text \<open>
  Modelled from the spec: what a run does to the host and to the services, in
  order.
\<close>

datatype 'h event =
    FileWritten string string
  | FileRestored string string
  | StoreCommitted "string \<rightharpoonup> 'h hashRecord"
  | ServiceNotified string

text \<open>Modelled from the spec: the effect of one event on the host.\<close>

fun applyEvent :: "'h host \<Rightarrow> 'h event \<Rightarrow> 'h host" where
  "applyEvent h (FileWritten d b) = h\<lparr>files := (files h)(d \<mapsto> b)\<rparr>"
| "applyEvent h (FileRestored d b) = h\<lparr>files := (files h)(d \<mapsto> b)\<rparr>"
| "applyEvent h (StoreCommitted m) = h\<lparr>hashStore := m\<rparr>"
| "applyEvent h (ServiceNotified s) = h"

text \<open>
  Modelled from the spec (4.2): \<open>Unavailable\<close> is retried up to \<open>maxRetries\<close> times,
  \<open>NotFound\<close> and \<open>AuthDenied\<close> end the resolution at once.
\<close>

fun resolveWithRetries ::
  "(string \<Rightarrow> nat \<Rightarrow> resolveFailure + string) \<Rightarrow> string \<Rightarrow> nat \<Rightarrow> nat \<Rightarrow> resolveFailure + string" where
  "resolveWithRetries res ref attempt 0 = res ref attempt"
| "resolveWithRetries res ref attempt (Suc retries) =
     (case res ref attempt of
        Inl Unavailable \<Rightarrow> resolveWithRetries res ref (Suc attempt) retries
      | answer \<Rightarrow> answer)"

text \<open>
  Modelled from the spec (4.4, 4.5): one secret. Its bytes are resolved and
  their digest compared with the stored record: an identical digest is
  \<open>Unchanged\<close> and the content is not written; otherwise (absent or different) the
  content is written and the record replaced in memory. A failed resolution or
  write is \<open>Failed\<close>.
\<close>

definition processSecret ::
  "'h capabilities \<Rightarrow> errorHandling \<Rightarrow> (string \<rightharpoonup> 'h hashRecord) \<Rightarrow> deployedSecret
     \<Rightarrow> outcome \<times> (string \<rightharpoonup> 'h hashRecord) \<times> 'h event list" where
  "processSecret caps pol mem s =
     (case resolveWithRetries (resolve caps) (secret_reference s) 0 (maxRetries pol) of
        Inl failure \<Rightarrow> (Failed, mem, [])
      | Inr bytes \<Rightarrow>
          (if (case mem (secret_name s) of
                 None \<Rightarrow> False
               | Some r \<Rightarrow> contentHash r = digest caps bytes)
           then (Unchanged, mem, [])
           else if writable caps (secret_destination s) then
             (Written,
              mem(secret_name s \<mapsto> \<lparr>contentHash = digest caps bytes, lastAppliedAt = clock caps\<rparr>),
              [FileWritten (secret_destination s) bytes])
           else (Failed, mem, [])))"

text \<open>
  Modelled from the spec (4.7): the secrets in manifest order. With
  \<open>continueOnError\<close> unset the first failure aborts: the secrets after it are not
  started. The result is the outcomes, the hash store in memory, the writes
  made, and whether the run was aborted.
\<close>

fun processAll ::
  "'h capabilities \<Rightarrow> errorHandling \<Rightarrow> (string \<rightharpoonup> 'h hashRecord) \<Rightarrow> deployedSecret list
     \<Rightarrow> (string \<times> outcome) list \<times> (string \<rightharpoonup> 'h hashRecord) \<times> 'h event list \<times> bool" where
  "processAll caps pol mem [] = ([], mem, [], False)"
| "processAll caps pol mem (s # rest) =
     (case processSecret caps pol mem s of
        (st, mem', written) \<Rightarrow>
          if st = Failed \<and> \<not> continueOnError pol then
            ((secret_name s, Failed) # map (\<lambda>r. (secret_name r, Skipped)) rest, mem', written, True)
          else
            (case processAll caps pol mem' rest of
               (outs, mem'', writes, aborted) \<Rightarrow>
                 ((secret_name s, st) # outs, mem'', written @ writes, aborted)))"

text \<open>
  Modelled from the spec (4.6): the services of the secrets written in this
  run, each once.
\<close>

definition servicesToNotify :: "(string \<times> outcome) list \<Rightarrow> deployedSecret list \<Rightarrow> string list" where
  "servicesToNotify outs specs =
     remdups (concat (map secret_services
       (filter (\<lambda>s. (secret_name s, Written) \<in> set outs) specs)))"

text \<open>
  Modelled from the spec (4.7): the preserved copies of the destinations that
  existed before the run, restored.
\<close>

definition restoreCopies :: "'h host \<Rightarrow> deployedSecret list \<Rightarrow> 'h event list" where
  "restoreCopies h specs =
     concat (map (\<lambda>s. case files h (secret_destination s) of
                         None \<Rightarrow> []
                       | Some b \<Rightarrow> [FileRestored (secret_destination s) b]) specs)"

text \<open>
  Modelled from the spec (4.7): a run. The store is loaded, the secrets are
  processed; an aborted run, or a failed one under \<open>rollbackOnFailure\<close>, commits
  nothing and notifies nobody (and restores the copies under
  \<open>rollbackOnFailure\<close>); any other run commits the store once, after the writes,
  and then notifies the services.
\<close>

definition run ::
  "'h capabilities \<Rightarrow> errorHandling \<Rightarrow> deployedSecret list \<Rightarrow> 'h host \<Rightarrow> runReport \<times> 'h event list" where
  "run caps pol specs h =
     (case processAll caps pol (hashStore h) specs of
        (outs, mem, writes, aborted) \<Rightarrow>
          (let anyFailed = (Failed \<in> set (map snd outs)) in
           if aborted \<or> (anyFailed \<and> rollbackOnFailure pol) then
             (\<lparr>outcomes = outs, notified = [], overall = Failure\<rparr>,
              writes @ (if rollbackOnFailure pol then restoreCopies h specs else []))
           else
             (\<lparr>outcomes = outs, notified = servicesToNotify outs specs,
               overall = (if anyFailed then PartialFailure else Success)\<rparr>,
              writes @ [StoreCommitted mem]
                @ map ServiceNotified (servicesToNotify outs specs))))"

text \<open>
  Modelled from the spec: the host after a run is the host before it with the
  events of the run applied in order.
\<close>

definition hostAfter :: "'h host \<Rightarrow> 'h event list \<Rightarrow> 'h host" where
  "hostAfter h events = foldl applyEvent h events"

text \<open>For concrete runs: a vault with one secret, and a manifest of two.\<close>

definition vault :: "string capabilities" where
  "vault =
     \<lparr>resolve = (\<lambda>ref attempt. if ref = ''op://Vault/A/password'' then Inr ''alpha'' else Inl NotFound),
      digest = (\<lambda>bytes. ''sha:'' @ bytes),
      writable = (\<lambda>d. True),
      clock = 1\<rparr>"

definition twoSecrets :: "deployedSecret list" where
  "twoSecrets =
     [\<lparr>secret_name = ''a'', secret_reference = ''op://Vault/A/password'',
       secret_destination = ''/run/secrets/a'', secret_services = [''caddy'']\<rparr>,
      \<lparr>secret_name = ''b'', secret_reference = ''op://Vault/B/password'',
       secret_destination = ''/run/secrets/b'', secret_services = [''postgresql'']\<rparr>]"

definition emptyHost :: "string host" where
  "emptyHost = \<lparr>files = Map.empty, hashStore = Map.empty\<rparr>"

definition strict :: errorHandling where
  "strict = \<lparr>rollbackOnFailure = False, continueOnError = False, maxRetries = 3\<rparr>"


lemma resolveWithRetries_settled:
  "res ref attempt \<noteq> Inl Unavailable \<Longrightarrow> resolveWithRetries res ref attempt n = res ref attempt"
  by (cases n) (auto split: sum.splits resolveFailure.splits)

lemma processSecret_Failed:
  "fst (processSecret caps pol mem s) = Failed \<Longrightarrow> processSecret caps pol mem s = (Failed, mem, [])"
  by (auto simp: processSecret_def split: sum.splits if_splits)

lemma processSecret_events:
  "processSecret caps pol mem s = (st, mem', evs) \<Longrightarrow> e \<in> set evs \<Longrightarrow> \<exists>d b. e = FileWritten d b"
  by (auto simp: processSecret_def split: sum.splits if_splits)

lemma processAll_events:
  "processAll caps pol mem specs = (outs, mem', evs, aborted) \<Longrightarrow> e \<in> set evs
     \<Longrightarrow> \<exists>d b. e = FileWritten d b"
proof (induction specs arbitrary: mem outs mem' evs aborted)
  case Nil
  then show ?case by simp
next
  case (Cons s rest)
  obtain st m1 w1 where one: "processSecret caps pol mem s = (st, m1, w1)"
    by (cases "processSecret caps pol mem s")
  obtain o2 m2 w2 a2 where more: "processAll caps pol m1 rest = (o2, m2, w2, a2)"
    by (cases "processAll caps pol m1 rest")
  from Cons.prems one more have "e \<in> set w1 \<or> e \<in> set w2"
    by (auto split: if_splits)
  then show ?case
    using processSecret_events [OF one] Cons.IH [OF more] by blast
qed

lemma processAll_append:
  "processAll caps pol mem pre = (o1, m1, w1, False) \<Longrightarrow>
   processAll caps pol mem (pre @ rest) =
     (case processAll caps pol m1 rest of (o2, m2, w2, aborted) \<Rightarrow> (o1 @ o2, m2, w1 @ w2, aborted))"
proof (induction pre arbitrary: mem o1 w1)
  case Nil
  then show ?case by (simp split: prod.splits)
next
  case (Cons s pre)
  obtain st ma wa where one: "processSecret caps pol mem s = (st, ma, wa)"
    by (cases "processSecret caps pol mem s")
  obtain ob mb wb ab where more: "processAll caps pol ma pre = (ob, mb, wb, ab)"
    by (cases "processAll caps pol ma pre")
  from Cons.prems one more have go: "\<not> (st = Failed \<and> \<not> continueOnError pol)"
    and eqs: "o1 = (secret_name s, st) # ob" "m1 = mb" "w1 = wa @ wb" "ab = False"
    by (auto split: if_splits)
  from more eqs have "processAll caps pol ma pre = (ob, m1, wb, False)" by simp
  from Cons.IH [OF this] one go eqs show ?case
    by (auto split: prod.splits)
qed

lemma hashStore_hostAfter:
  "\<forall>m. StoreCommitted m \<notin> set events \<Longrightarrow> hashStore (hostAfter h events) = hashStore h"
  unfolding hostAfter_def
proof (induction events arbitrary: h)
  case Nil
  then show ?case by simp
next
  case (Cons e events)
  then have "hashStore (applyEvent h e) = hashStore h" by (cases e) auto
  with Cons show ?case by simp
qed

lemma restoreCopies_events:
  "e \<in> set (restoreCopies h specs) \<Longrightarrow> \<exists>d b. e = FileRestored d b"
  by (auto simp: restoreCopies_def split: option.splits)

text \<open>
  With \<open>continueOnError\<close> unset, the first secret to fail ends the run as
  \<open>Failure\<close>: the events are the writes made for the secrets before it, followed
  by the restored copies under \<open>rollbackOnFailure\<close>; nothing is committed and
  nobody is notified.
\<close>

lemma strict_abort:
  assumes strict: "\<not> continueOnError pol"
    and split: "specs = pre @ s # post"
    and pre: "processAll caps pol (hashStore h) pre = (outs1, mem1, writes1, False)"
    and fail: "fst (processSecret caps pol mem1 s) = Failed"
  shows "run caps pol specs h =
     (\<lparr>outcomes = outs1 @ (secret_name s, Failed) # map (\<lambda>r. (secret_name r, Skipped)) post,
       notified = [], overall = Failure\<rparr>,
      writes1 @ (if rollbackOnFailure pol then restoreCopies h specs else []))"
proof -
  from fail have "processSecret caps pol mem1 s = (Failed, mem1, [])"
    by (rule processSecret_Failed)
  with strict have "processAll caps pol mem1 (s # post) =
      ((secret_name s, Failed) # map (\<lambda>r. (secret_name r, Skipped)) post, mem1, [], True)"
    by simp
  with processAll_append [OF pre, of "s # post"] split
  have "processAll caps pol (hashStore h) specs =
      (outs1 @ (secret_name s, Failed) # map (\<lambda>r. (secret_name r, Skipped)) post, mem1, writes1, True)"
    by simp
  then show ?thesis by (simp add: run_def)
qed

subsection \<open>A second run\<close>





lemma hostAfter_append: "hostAfter h (xs @ ys) = hostAfter (hostAfter h xs) ys"
  by (simp add: hostAfter_def)




lemma committed_run:
  assumes "run caps pol specs h = (report, events)" and "StoreCommitted m \<in> set events"
  shows "\<exists>outs mem writes.
      processAll caps pol (hashStore h) specs = (outs, mem, writes, False)
      \<and> \<not> (Failed \<in> set (map snd outs) \<and> rollbackOnFailure pol)
      \<and> events = writes @ [StoreCommitted mem] @ map ServiceNotified (servicesToNotify outs specs)"
proof -
  obtain outs mem writes aborted
    where p: "processAll caps pol (hashStore h) specs = (outs, mem, writes, aborted)"
    by (cases "processAll caps pol (hashStore h) specs")
  have nw: "StoreCommitted m \<notin> set writes"
    using processAll_events [OF p] by blast
  have nr: "StoreCommitted m \<notin> set (restoreCopies h specs)"
    using restoreCopies_events [of "StoreCommitted m" h specs] by blast
  show ?thesis
  proof (cases "aborted \<or> (Failed \<in> set (map snd outs) \<and> rollbackOnFailure pol)")
    case True
    with assms(1) p have "events = writes @ (if rollbackOnFailure pol then restoreCopies h specs else [])"
      by (auto simp: run_def Let_def)
    with assms(2) nw nr show ?thesis by (auto split: if_splits)
  next
    case False
    with assms(1) p show ?thesis by (auto simp: run_def Let_def)
  qed
qed





subsection \<open>The hash store during a run\<close>

lemma processSecret_records:
  assumes "processSecret caps pol mem s = (st, mem', evs)" and "mem' n = Some r"
  shows "mem n = Some r
    \<or> (secret_name s = n \<and> (\<exists>bytes. contentHash r = digest caps bytes
          \<and> FileWritten (secret_destination s) bytes \<in> set evs))"
  using assms by (auto simp: processSecret_def split: sum.splits if_splits)

lemma processAll_records:
  "processAll caps pol mem specs = (outs, mem', writes, aborted) \<Longrightarrow> mem' n = Some r \<Longrightarrow>
   mem n = Some r
   \<or> (\<exists>s\<in>set specs. \<exists>bytes. secret_name s = n \<and> contentHash r = digest caps bytes
         \<and> FileWritten (secret_destination s) bytes \<in> set writes)"
proof (induction specs arbitrary: mem mem' outs writes aborted)
  case Nil
  then show ?case by simp
next
  case (Cons s rest)
  obtain st m1 w1 where one: "processSecret caps pol mem s = (st, m1, w1)"
    by (cases "processSecret caps pol mem s")
  obtain o2 m2 w2 a2 where more: "processAll caps pol m1 rest = (o2, m2, w2, a2)"
    by (cases "processAll caps pol m1 rest")
  show ?case
  proof (cases "st = Failed \<and> \<not> continueOnError pol")
    case True
    with Cons.prems one have eqs: "mem' = m1" "writes = w1" by auto
    with Cons.prems(2) have "m1 n = Some r" by simp
    from processSecret_records [OF one this] eqs show ?thesis by auto
  next
    case False
    with Cons.prems one more have eqs: "mem' = m2" "writes = w1 @ w2" by auto
    with Cons.prems(2) have "m2 n = Some r" by simp
    from Cons.IH [OF more this]
    consider "m1 n = Some r"
      | "\<exists>s\<in>set rest. \<exists>bytes. secret_name s = n \<and> contentHash r = digest caps bytes
           \<and> FileWritten (secret_destination s) bytes \<in> set w2"
      by auto
    then show ?thesis
    proof cases
      case 1
      from processSecret_records [OF one 1] eqs show ?thesis by auto
    next
      case 2
      with eqs show ?thesis by auto
    qed
  qed
qed

lemma hashStore_after_commit:
  "\<forall>m'. StoreCommitted m' \<notin> set tail \<Longrightarrow>
   hashStore (hostAfter h (writes @ StoreCommitted m # tail)) = m"
proof -
  assume "\<forall>m'. StoreCommitted m' \<notin> set tail"
  then have "hashStore (hostAfter (hostAfter h (writes @ [StoreCommitted m])) tail)
      = hashStore (hostAfter h (writes @ [StoreCommitted m]))"
    by (rule hashStore_hostAfter)
  moreover have "hashStore (hostAfter h (writes @ [StoreCommitted m])) = m"
    by (simp add: hostAfter_def)
  moreover have "hostAfter h (writes @ StoreCommitted m # tail)
      = hostAfter (hostAfter h (writes @ [StoreCommitted m])) tail"
    by (simp add: hostAfter_def)
  ultimately show ?thesis by simp
qed

lemma prefix_with_commit:
  assumes split: "pre @ post = writes @ StoreCommitted mem # notes"
    and commit: "StoreCommitted m \<in> set pre"
    and nw: "\<forall>m'. StoreCommitted m' \<notin> set writes"
  shows "\<exists>tail. pre = writes @ StoreCommitted mem # tail \<and> tail @ post = notes"
proof -
  from split consider us where "pre = writes @ us" "us @ post = StoreCommitted mem # notes"
    | us where "pre @ us = writes" "post = us @ StoreCommitted mem # notes"
    by (auto simp: append_eq_append_conv2)
  then show ?thesis
  proof cases
    case 1
    with commit nw have "us \<noteq> []" by auto
    with 1 obtain tail where "us = StoreCommitted mem # tail" "tail @ post = notes"
      by (cases us) auto
    with 1 show ?thesis by simp
  next
    case 2
    with commit nw show ?thesis by auto
  qed
qed

text \<open>
  Claim C1. A run either commits nothing, or commits exactly once, after file
  writes only and before notifications only. Stop the run after any number of
  its events (\<open>pre\<close>): every record the hash store file then holds was in the file
  before the run, or belongs to a secret of the manifest and carries the digest
  of content that the events so far have written to that secret's destination.
\<close>

theorem store_reflects_written_content:
  "run caps pol specs h = (report, events) \<longrightarrow>
     ((\<forall>m. StoreCommitted m \<notin> set events)
      \<or> (\<exists>writes m services.
            events = writes @ [StoreCommitted m] @ map ServiceNotified services
            \<and> (\<forall>e\<in>set writes. \<exists>d b. e = FileWritten d b)))
     \<and> (\<forall>pre post n r.
           events = pre @ post \<and> hashStore (hostAfter h pre) n = Some r \<longrightarrow>
           hashStore h n = Some r
           \<or> (\<exists>s\<in>set specs. \<exists>bytes. secret_name s = n \<and> contentHash r = digest caps bytes
                 \<and> FileWritten (secret_destination s) bytes \<in> set pre))"
proof (intro impI conjI allI)
  assume r: "run caps pol specs h = (report, events)"
  show "(\<forall>m. StoreCommitted m \<notin> set events)
      \<or> (\<exists>writes m services.
            events = writes @ [StoreCommitted m] @ map ServiceNotified services
            \<and> (\<forall>e\<in>set writes. \<exists>d b. e = FileWritten d b))"
  proof (cases "\<forall>m. StoreCommitted m \<notin> set events")
    case True
    then show ?thesis ..
  next
    case False
    then obtain m where "StoreCommitted m \<in> set events" by blast
    from committed_run [OF r this] obtain outs mem writes where
      p: "processAll caps pol (hashStore h) specs = (outs, mem, writes, False)"
      and ev: "events = writes @ [StoreCommitted mem] @ map ServiceNotified (servicesToNotify outs specs)"
      by blast
    have "\<forall>e\<in>set writes. \<exists>d b. e = FileWritten d b"
      using processAll_events [OF p] by blast
    with ev show ?thesis by blast
  qed
next
  fix pre post n rec
  assume r: "run caps pol specs h = (report, events)"
    and a: "events = pre @ post \<and> hashStore (hostAfter h pre) n = Some rec"
  show "hashStore h n = Some rec
      \<or> (\<exists>s\<in>set specs. \<exists>bytes. secret_name s = n \<and> contentHash rec = digest caps bytes
            \<and> FileWritten (secret_destination s) bytes \<in> set pre)"
  proof (cases "\<forall>m. StoreCommitted m \<notin> set pre")
    case True
    then have "hashStore (hostAfter h pre) = hashStore h"
      by (rule hashStore_hostAfter)
    with a show ?thesis by simp
  next
    case False
    then obtain m where m: "StoreCommitted m \<in> set pre" by blast
    with a have "StoreCommitted m \<in> set events" by simp
    from committed_run [OF r this] obtain outs mem writes where
      p: "processAll caps pol (hashStore h) specs = (outs, mem, writes, False)"
      and ev: "events = writes @ [StoreCommitted mem] @ map ServiceNotified (servicesToNotify outs specs)"
      by blast
    have nw: "\<forall>m'. StoreCommitted m' \<notin> set writes"
      using processAll_events [OF p] by blast
    from a ev have "pre @ post =
        writes @ StoreCommitted mem # map ServiceNotified (servicesToNotify outs specs)"
      by simp
    from prefix_with_commit [OF this m nw] obtain tail where
      pre: "pre = writes @ StoreCommitted mem # tail"
      and tail: "tail @ post = map ServiceNotified (servicesToNotify outs specs)"
      by blast
    have "set tail \<subseteq> set (map ServiceNotified (servicesToNotify outs specs))"
      using tail by (metis Un_upper1 set_append)
    then have "\<forall>m'. StoreCommitted m' \<notin> set tail" by auto
    then have "hashStore (hostAfter h pre) = mem"
      unfolding pre by (rule hashStore_after_commit)
    with a have "mem n = Some rec" by simp
    from processAll_records [OF p this] pre show ?thesis by auto
  qed
qed

theorem store_reflects_written_content_witness:
  "hashStore (hostAfter emptyHost
       (take 1 (snd (run vault errorHandlingDefaults twoSecrets emptyHost)))) ''a'' = None
   \<and> map_option contentHash (hashStore (hostAfter emptyHost
       (take 2 (snd (run vault errorHandlingDefaults twoSecrets emptyHost)))) ''a'')
       = Some (digest vault ''alpha'')
   \<and> (\<exists>s\<in>set twoSecrets. secret_name s = ''a''
        \<and> FileWritten (secret_destination s) ''alpha''
            \<in> set (take 2 (snd (run vault errorHandlingDefaults twoSecrets emptyHost))))"
proof -
  let ?m = "[''a'' \<mapsto> \<lparr>contentHash = ''sha:alpha'', lastAppliedAt = 1\<rparr>]"
  let ?events = "[FileWritten ''/run/secrets/a'' ''alpha'', StoreCommitted ?m, ServiceNotified ''caddy'']"
  obtain report where r: "run vault errorHandlingDefaults twoSecrets emptyHost = (report, ?events)"
    by (cases "run vault errorHandlingDefaults twoSecrets emptyHost")
      (simp add: run_def twoSecrets_def processSecret_def vault_def errorHandlingDefaults_def
        emptyHost_def resolveWithRetries_settled servicesToNotify_def)
  let ?pre = "[FileWritten ''/run/secrets/a'' ''alpha'', StoreCommitted ?m]"
  have stored: "hashStore (hostAfter emptyHost ?pre) ''a''
      = Some \<lparr>contentHash = ''sha:alpha'', lastAppliedAt = 1\<rparr>"
    by (simp add: hostAfter_def)
  have "?events = ?pre @ [ServiceNotified ''caddy'']
      \<and> hashStore (hostAfter emptyHost ?pre) ''a''
          = Some \<lparr>contentHash = ''sha:alpha'', lastAppliedAt = 1\<rparr>"
    using stored by simp
  with store_reflects_written_content [THEN mp, OF r, THEN conjunct2]
  have "hashStore emptyHost ''a'' = Some \<lparr>contentHash = ''sha:alpha'', lastAppliedAt = 1\<rparr>
      \<or> (\<exists>s\<in>set twoSecrets. \<exists>bytes. secret_name s = ''a''
            \<and> contentHash \<lparr>contentHash = ''sha:alpha'', lastAppliedAt = 1\<rparr> = digest vault bytes
            \<and> FileWritten (secret_destination s) bytes \<in> set ?pre)"
    by blast
  then have written: "\<exists>s\<in>set twoSecrets. secret_name s = ''a''
      \<and> FileWritten (secret_destination s) ''alpha'' \<in> set ?pre"
    by (auto simp: emptyHost_def vault_def)
  have before: "hashStore (hostAfter emptyHost [FileWritten ''/run/secrets/a'' ''alpha'']) ''a'' = None"
    by (simp add: hostAfter_def emptyHost_def)
  have d: "digest vault ''alpha'' = ''sha:alpha''"
    by (simp add: vault_def)
  show ?thesis
    unfolding r snd_conv using stored written before d by simp
qed

end
